theory Spec2Isabelle
  imports Main
begin

section \<open>Texts\<close>

text \<open>
  A Python \<open>str\<close> is a sequence of code points. The development models the texts whose
  code points are below 256 as \<open>string\<close>, one \<open>char\<close> per code point, so that
  \<open>length\<close> is Python's \<open>len\<close>. The character classes below are the ones Python's
  \<open>str.isspace\<close>, the regular expression classes \<open>\s\<close> and \<open>\w\<close>, and \<open>str.lower\<close>
  give on these code points.
\<close>

definition is_space :: "char \<Rightarrow> bool" where
  "is_space c =
     (let n = (of_char c :: nat)
      in (9 \<le> n \<and> n \<le> 13) \<or> (28 \<le> n \<and> n \<le> 32) \<or> n = 133 \<or> n = 160)"

definition is_word :: "char \<Rightarrow> bool" where
  "is_word c =
     (let n = (of_char c :: nat)
      in (48 \<le> n \<and> n \<le> 57) \<or> (65 \<le> n \<and> n \<le> 90) \<or> n = 95 \<or> (97 \<le> n \<and> n \<le> 122)
         \<or> n = 170 \<or> n = 178 \<or> n = 179 \<or> n = 181 \<or> n = 185 \<or> n = 186
         \<or> (188 \<le> n \<and> n \<le> 190) \<or> (192 \<le> n \<and> n \<le> 214) \<or> (216 \<le> n \<and> n \<le> 246)
         \<or> 248 \<le> n)"

definition lower_char :: "char \<Rightarrow> char" where
  "lower_char c =
     (let n = (of_char c :: nat)
      in if (65 \<le> n \<and> n \<le> 90) \<or> (192 \<le> n \<and> n \<le> 222 \<and> n \<noteq> 215)
         then char_of (n + 32) else c)"

definition lower :: "string \<Rightarrow> string" where
  "lower s = map lower_char s"

text \<open>\<open>s.strip()\<close>: leading and trailing whitespace removed.\<close>

definition strip :: "string \<Rightarrow> string" where
  "strip s = rev (dropWhile is_space (rev (dropWhile is_space s)))"

text \<open>\<open>s.strip(chars)\<close>: leading and trailing characters of the set \<open>chars\<close> removed.\<close>

definition strip_chars :: "string \<Rightarrow> string \<Rightarrow> string" where
  "strip_chars chars s =
     rev (dropWhile (\<lambda>c. c \<in> set chars) (rev (dropWhile (\<lambda>c. c \<in> set chars) s)))"

text \<open>\<open>s.split('\n')\<close>: the lines of a text; the empty text has one empty line.\<close>

fun split_nl :: "string \<Rightarrow> string list" where
  "split_nl [] = [[]]"
| "split_nl (c # cs) =
     (if c = CHR 0x0A then [] # split_nl cs
      else (case split_nl cs of [] \<Rightarrow> [[c]] | l # ls \<Rightarrow> (c # l) # ls))"

text \<open>\<open>'\n'.join(parts)\<close>.\<close>

fun join_nl :: "string list \<Rightarrow> string" where
  "join_nl [] = []"
| "join_nl [l] = l"
| "join_nl (l # ls) = l @ CHR 0x0A # join_nl ls"

text \<open>\<open>needle in s\<close>: the substring test.\<close>

fun contains :: "string \<Rightarrow> string \<Rightarrow> bool" where
  "contains needle [] = (needle = [])"
| "contains needle (c # cs) =
     (take (length needle) (c # cs) = needle \<or> contains needle cs)"

text \<open>\<open>s.count('\n')\<close>.\<close>

definition count_nl :: "string \<Rightarrow> nat" where
  "count_nl s = length (filter (\<lambda>c. c = CHR 0x0A) s)"

text \<open>\<open>xs[a:b]\<close> for indices \<open>0 \<le> a\<close> and \<open>0 \<le> b\<close>.\<close>

definition slice :: "'a list \<Rightarrow> nat \<Rightarrow> nat \<Rightarrow> 'a list" where
  "slice xs a b = drop a (take b xs)"

section \<open>The Markdown parser\<close>

subsection \<open>Headers\<close>

record header =
  hdr_level :: nat
  hdr_text :: string
  hdr_line :: nat

text \<open>
  \<open>re.match(r'^(#{1,6})\s+(.+)$', line)\<close> on a line (a text without newline), giving the
  two groups. The hashes are matched greedily, at most six, and the character after them
  has to be whitespace, so a line with seven hashes or more does not match whatever the
  backtracking. \<open>\s+\<close> is greedy: it takes the whole run of whitespace, and gives one
  character back to \<open>.+\<close> only when nothing follows the run.
\<close>

definition atx_match :: "string \<Rightarrow> (string \<times> string) option" where
  "atx_match l =
     (let g1 = takeWhile (\<lambda>c. c = CHR ''#'') l;
          r = dropWhile (\<lambda>c. c = CHR ''#'') l;
          ws = takeWhile is_space r;
          rest = dropWhile is_space r
      in if 1 \<le> length g1 \<and> length g1 \<le> 6 \<and> ws \<noteq> []
         then (if rest \<noteq> [] then Some (g1, rest)
               else if 2 \<le> length ws then Some (g1, [last ws])
               else None)
         else None)"

text \<open>The loop of \<open>extract_headers\<close> over \<open>enumerate(lines)\<close>, from index \<open>i\<close> on.\<close>

fun headers_from :: "nat \<Rightarrow> string list \<Rightarrow> header list" where
  "headers_from i [] = []"
| "headers_from i (l # ls) =
     (case atx_match l of
        None \<Rightarrow> headers_from (i + 1) ls
      | Some (g1, g2) \<Rightarrow>
          \<lparr>hdr_level = length g1, hdr_text = strip g2, hdr_line = i + 1\<rparr>
          # headers_from (i + 1) ls)"

definition extract_headers :: "string \<Rightarrow> header list" where
  "extract_headers content = headers_from 0 (split_nl content)"

subsection \<open>Sections\<close>

record md_section =
  sec_title :: string
  sec_level :: nat
  sec_content :: string
  sec_start_line :: nat
  sec_end_line :: nat

text \<open>
  The inner loop of \<open>extract_sections\<close>: the end of a section among the headers that
  follow, \<open>dflt\<close> (the number of lines) when the loop finds none.
\<close>

fun find_end :: "nat \<Rightarrow> nat \<Rightarrow> header list \<Rightarrow> nat" where
  "find_end lvl dflt [] = dflt"
| "find_end lvl dflt (h # hs) =
     (if hdr_level h \<le> lvl then hdr_line h - 1 else find_end lvl dflt hs)"

fun sections_from :: "string list \<Rightarrow> header list \<Rightarrow> md_section list" where
  "sections_from lines [] = []"
| "sections_from lines (h # hs) =
     (let start_line = hdr_line h - 1;
          end_line = find_end (hdr_level h) (length lines) hs
      in \<lparr>sec_title = hdr_text h, sec_level = hdr_level h,
          sec_content = join_nl (slice lines start_line end_line),
          sec_start_line = start_line + 1, sec_end_line = end_line\<rparr>
         # sections_from lines hs)"

definition extract_sections :: "string \<Rightarrow> md_section list" where
  "extract_sections content =
     sections_from (split_nl content) (extract_headers content)"

text \<open>The document with four headers at levels 1, 2, 2, 1 on lines 1, 3, 6 and 9.\<close>

definition doc_abcd :: string where
  "doc_abcd = ''# A\<newline>\<newline>## B\<newline>text\<newline>\<newline>## C\<newline>text\<newline>\<newline># D''"

text \<open>
  The header lines in the words of the specification: a line that starts with one to
  six \<open>#\<close> characters, followed by at least one whitespace character, followed by at
  least one more character.
\<close>

definition atx_line :: "string \<Rightarrow> bool" where
  "atx_line l =
     (\<exists>k \<in> {1..6}. \<exists>n \<in> {1..length l}.
        take k l = replicate k (CHR ''#'') \<and>
        (\<forall>c \<in> set (take n (drop k l)). is_space c) \<and>
        drop (k + n) l \<noteq> [])"

text \<open>A document whose third line, a shell comment, lies inside a fenced code block.\<close>

definition doc_fenced_comment :: string where
  "doc_fenced_comment = ''# T\<newline>```bash\<newline># install\<newline>pip install x\<newline>```\<newline>''"

subsection \<open>Code blocks\<close>

record code_block =
  cb_language :: string
  cb_code :: string
  cb_line :: nat
  cb_type :: string

text \<open>\<open>s.startswith(p)\<close>.\<close>

definition starts_with :: "string \<Rightarrow> string \<Rightarrow> bool" where
  "starts_with p s = (take (length p) s = p)"

text \<open>
  The lazy \<open>(.*?)\<close> followed by the closing fence, under \<open>re.DOTALL\<close>: the text up to the
  first three backticks, and the text after them.
\<close>

fun find_fence :: "string \<Rightarrow> (string \<times> string) option" where
  "find_fence [] = None"
| "find_fence (c # cs) =
     (if starts_with ''```'' (c # cs) then Some ([], drop 3 (c # cs))
      else map_option (\<lambda>(g, r). (c # g, r)) (find_fence cs))"

text \<open>
  A match of the pattern \<open>```(\w+)?\n(.*?)```\<close> at the start of \<open>s\<close>: the two groups and
  the text after the match. \<open>\w+\<close> takes the whole run of word characters after the
  opening fence; the character after the run is not a word character, so no shorter
  tag and no skipped group can be followed by the newline when the whole run is not.
\<close>

definition fence_match :: "string \<Rightarrow> (string option \<times> string \<times> string) option" where
  "fence_match s =
     (if starts_with ''```'' s then
        (let t = drop 3 s;
             w = takeWhile is_word t;
             u = dropWhile is_word t
         in case u of
              [] \<Rightarrow> None
            | c # body \<Rightarrow>
                if c = CHR 0x0A then
                  (case find_fence body of
                     None \<Rightarrow> None
                   | Some (g2, r) \<Rightarrow> Some (if w = [] then None else Some w, g2, r))
                else None)
      else None)"

text \<open>
  \<open>re.finditer\<close> over the content from the current position on, \<open>n\<close> being the number
  of newlines before that position: a match gives a block and the search goes on after
  it, no match moves the search one character on.
\<close>

function fenced_from :: "nat \<Rightarrow> string \<Rightarrow> code_block list" where
  "fenced_from n [] = []"
| "fenced_from n (c # cs) =
     (case fence_match (c # cs) of
        None \<Rightarrow> fenced_from (if c = CHR 0x0A then n + 1 else n) cs
      | Some (g1, g2, r) \<Rightarrow>
          \<lparr>cb_language = (case g1 of None \<Rightarrow> ''text'' | Some w \<Rightarrow> w),
           cb_code = strip g2, cb_line = n + 1, cb_type = ''fenced''\<rparr>
          # fenced_from (n + count_nl (take (length (c # cs) - length r) (c # cs))) r)"
  by pat_completeness auto
termination
proof (relation "measure (\<lambda>(n, s). length s)")
  show "wf (measure (\<lambda>(n, s). length s))" by simp
next
  fix n :: nat and c :: char and cs :: string
  assume "fence_match (c # cs) = None"
  show "((if c = CHR 0x0A then n + 1 else n, cs), (n, c # cs)) \<in> measure (\<lambda>(n, s). length s)"
    by simp
next
  fix n :: nat and c :: char and cs :: string and x2 :: "string option \<times> string \<times> string"
    and g1 :: "string option" and y :: "string \<times> string" and g2 r :: string
  assume m: "fence_match (c # cs) = Some x2" and x: "(g1, y) = x2" "(g2, r) = y"
  have ff: "find_fence b = Some (g, q) \<Longrightarrow> length q < length b" for b g q
  proof (induction b arbitrary: g)
    case Nil
    then show ?case by simp
  next
    case (Cons a b)
    then show ?case by (fastforce split: if_splits)
  qed
  have "length r < length (c # cs)"
  proof -
    from m x have "fence_match (c # cs) = Some (g1, g2, r)" by simp
    then obtain body where b: "find_fence body = Some (g2, r)"
      and d: "dropWhile is_word (drop 3 (c # cs)) = CHR 0x0A # body"
      by (auto simp: fence_match_def Let_def split: if_splits list.splits option.splits)
    have "length (dropWhile is_word (drop 3 (c # cs))) \<le> length (drop 3 (c # cs))"
      by (rule length_dropWhile_le)
    with d have "length body < length (c # cs)" by simp
    with ff[OF b] show ?thesis by simp
  qed
  then show "((n + count_nl (take (length (c # cs) - length r) (c # cs)), r), (n, c # cs))
      \<in> measure (\<lambda>(n, s). length s)"
    by simp
qed

text \<open>
  The loop over the lines for the indented blocks, with its state: the index \<open>i\<close> of the
  line, \<open>in_code_block\<close>, \<open>current_block\<close> and \<open>block_start\<close>. The blocks appended by the
  loop are returned in order; after the last line comes the final block.
\<close>

definition indented_block :: "string list \<Rightarrow> nat \<Rightarrow> code_block" where
  "indented_block current_block block_start =
     \<lparr>cb_language = ''text'', cb_code = join_nl current_block,
      cb_line = block_start, cb_type = ''indented''\<rparr>"

fun indented_from :: "nat \<Rightarrow> bool \<Rightarrow> string list \<Rightarrow> nat \<Rightarrow> string list \<Rightarrow> code_block list" where
  "indented_from i in_code_block current_block block_start [] =
     (if in_code_block \<and> current_block \<noteq> []
      then [indented_block current_block block_start] else [])"
| "indented_from i in_code_block current_block block_start (l # ls) =
     (if starts_with ''    '' l \<or> starts_with [CHR 0x09] l then
        indented_from (i + 1) True
          (current_block @ [if starts_with ''    '' l then drop 4 l else drop 1 l])
          (if \<not> in_code_block then i + 1 else block_start) ls
      else if in_code_block \<and> current_block \<noteq> [] then
        indented_block current_block block_start
        # indented_from (i + 1) False [] block_start ls
      else indented_from (i + 1) False current_block block_start ls)"

definition extract_code_blocks :: "string \<Rightarrow> code_block list" where
  "extract_code_blocks content =
     fenced_from 0 content @ indented_from 0 False [] 0 (split_nl content)"

text \<open>
  The text of one fenced block: the opening fence with the language tag, the code on
  the lines after it, and the closing fence on a line of its own.
\<close>

definition fence_wrap :: "string \<Rightarrow> string \<Rightarrow> string" where
  "fence_wrap tag code = ''```'' @ tag @ CHR 0x0A # code @ CHR 0x0A # ''```''"

subsection \<open>Dictionaries\<close>

text \<open>
  A Python \<open>dict\<close> is modelled as an association list in insertion order with distinct
  keys: \<open>d[k] = v\<close> replaces the value of a key that is present and appends a new key,
  \<open>k in d\<close> and \<open>d[k]\<close> are \<open>map_of\<close>.
\<close>

fun dict_set :: "'k \<Rightarrow> 'v \<Rightarrow> ('k \<times> 'v) list \<Rightarrow> ('k \<times> 'v) list" where
  "dict_set k v [] = [(k, v)]"
| "dict_set k v ((k', v') # d) =
     (if k' = k then (k, v) # d else (k', v') # dict_set k v d)"

subsection \<open>Frontmatter\<close>

text \<open>
  \<open>re.match(r'^---\n(.*?)\n---\n', content, re.DOTALL)\<close>: the content starts with the
  opening line, and the group is the text up to the first closing line.
\<close>

fun find_fm_close :: "string \<Rightarrow> string option" where
  "find_fm_close [] = None"
| "find_fm_close (c # cs) =
     (if starts_with [CHR 0x0A, CHR ''-'', CHR ''-'', CHR ''-'', CHR 0x0A] (c # cs) then Some []
      else map_option (\<lambda>g. c # g) (find_fm_close cs))"

definition frontmatter_match :: "string \<Rightarrow> string option" where
  "frontmatter_match content =
     (if starts_with [CHR ''-'', CHR ''-'', CHR ''-'', CHR 0x0A] content
      then find_fm_close (drop 4 content) else None)"

text \<open>
  The loop over the lines of the frontmatter: a line with a colon is split at the first
  colon, \<open>line.split(':', 1)\<close>, and stored with the key stripped and the value stripped
  of whitespace and then of quotes.
\<close>

fun metadata_lines :: "(string \<times> string) list \<Rightarrow> string list \<Rightarrow> (string \<times> string) list" where
  "metadata_lines metadata [] = metadata"
| "metadata_lines metadata (l # ls) =
     metadata_lines
       (if CHR '':'' \<in> set l then
          dict_set (strip (takeWhile (\<lambda>c. c \<noteq> CHR '':'') l))
            (strip_chars [CHR 0x22, CHR 0x27]
               (strip (drop 1 (dropWhile (\<lambda>c. c \<noteq> CHR '':'') l))))
            metadata
        else metadata) ls"

definition extract_metadata :: "string \<Rightarrow> (string \<times> string) list" where
  "extract_metadata content =
     (case frontmatter_match content of
        None \<Rightarrow> []
      | Some frontmatter \<Rightarrow> metadata_lines [] (split_nl frontmatter))"

subsection \<open>Content type and analysis\<close>

definition determine_content_type ::
    "(string \<times> string) list \<Rightarrow> header list \<Rightarrow> code_block list \<Rightarrow> string" where
  "determine_content_type metadata headers code_blocks =
     (case map_of metadata ''type'' of
        Some t \<Rightarrow> t
      | None \<Rightarrow>
          (let has_code = (0 < length code_blocks);
               has_exercises = list_ex (\<lambda>h. contains ''exercise'' (lower (hdr_text h)) \<or>
                                            contains ''challenge'' (lower (hdr_text h))) headers;
               has_solutions = list_ex (\<lambda>h. contains ''solution'' (lower (hdr_text h)) \<or>
                                            contains ''answer'' (lower (hdr_text h))) headers
           in if has_exercises \<and> has_solutions then ''tutorial_with_exercises''
              else if has_exercises then ''tutorial''
              else if has_code then ''code_example''
              else if list_ex (\<lambda>h. contains ''introduction'' (lower (hdr_text h))) headers
                   then ''introduction''
              else ''documentation''))"

text \<open>
  The result of \<open>analyze_content_structure\<close>. The links and the word count of the source
  are computed from the content alone and are read by none of the other fields; they
  are not part of the model.
\<close>

record md_analysis =
  an_file_path :: string
  an_metadata :: "(string \<times> string) list"
  an_stat_lines :: nat
  an_stat_headers :: nat
  an_stat_code_blocks :: nat
  an_stat_sections :: nat
  an_headers :: "header list"
  an_sections :: "md_section list"
  an_code_blocks :: "code_block list"
  an_content_type :: string

definition analyze_content_structure :: "string \<Rightarrow> string \<Rightarrow> md_analysis" where
  "analyze_content_structure content file_path =
     (let metadata = extract_metadata content;
          headers = extract_headers content;
          code_blocks = extract_code_blocks content;
          sections = extract_sections content
      in \<lparr>an_file_path = file_path, an_metadata = metadata,
          an_stat_lines = length (split_nl content),
          an_stat_headers = length headers,
          an_stat_code_blocks = length code_blocks,
          an_stat_sections = length sections,
          an_headers = headers, an_sections = sections, an_code_blocks = code_blocks,
          an_content_type = determine_content_type metadata headers code_blocks\<rparr>)"

text \<open>The Markdown input of the end-to-end scenario.\<close>

definition doc_e2e :: string where
  "doc_e2e = ''# Intro\<newline>\<newline>Some text.\<newline>\<newline>## Exercise\<newline>\<newline>Do X.\<newline>\<newline>## Solution\<newline>\<newline>Answer.''"

section \<open>Exceptions and the JSON decoder\<close>

text \<open>
  The exceptions the code distinguishes, each with its message: the decode error of
  \<open>json.loads\<close>, the validation error of \<open>nbformat\<close>, the attribute and type errors of
  the interpreter, and any other \<open>Exception\<close>. A call that may raise returns
  \<open>py_exn + 'a\<close>, with \<open>Inl\<close> for the exception. The text of a message is not modelled
  beyond the name an attribute error carries.
\<close>

datatype py_exn =
    JSONDecodeError string
  | ValidationError string
  | AttributeError string
  | TypeError string
  | OtherException string

fun exn_str :: "py_exn \<Rightarrow> string" where
  "exn_str (JSONDecodeError m) = m"
| "exn_str (ValidationError m) = m"
| "exn_str (AttributeError m) = m"
| "exn_str (TypeError m) = m"
| "exn_str (OtherException m) = m"

text \<open>
  \<open>json.loads\<close> belongs to the standard library, not to the repository: the functions
  that call it take the decoder as the parameter \<open>loads\<close>. Where a concrete decoder is
  needed, \<open>json_loads\<close> below decodes the JSON grammar the way the standard decoder scans
  it: whitespace is space, tab, newline and carriage return; a value is a string, an
  object, an array, \<open>null\<close>, \<open>true\<close>, \<open>false\<close>, a number, \<open>NaN\<close>, \<open>Infinity\<close> or \<open>-Infinity\<close>;
  a repeated key of an object keeps its first position and takes the last value. A number
  keeps its literal. An escape \<open>\u\<close> can name any code point, so the strings and keys of a
  decoded value are lists of code points; a high surrogate followed by the escape of a
  low surrogate is joined with it, any other surrogate is kept. The limits the
  interpreter puts on the nesting depth and on the digits of an integer are not
  modelled. The recursion is bounded by a counter set from the length of the text.

  The type of the values is parametric in the type of its strings: \<open>string json\<close> for
  values written in the theory, \<open>nat list json\<close> for decoded ones.
\<close>

datatype 's json =
    JNull
  | JBool bool
  | JNumber string
  | JString 's
  | JArray "'s json list"
  | JObject "('s \<times> 's json) list"

text \<open>The code points of a text.\<close>

definition codes :: "string \<Rightarrow> nat list" where
  "codes s = map of_char s"

definition is_json_ws :: "char \<Rightarrow> bool" where
  "is_json_ws c = (c = CHR '' '' \<or> c = CHR 0x09 \<or> c = CHR 0x0A \<or> c = CHR 0x0D)"

definition skip_ws :: "string \<Rightarrow> string" where
  "skip_ws s = dropWhile is_json_ws s"

definition is_digit :: "char \<Rightarrow> bool" where
  "is_digit c = (48 \<le> (of_char c :: nat) \<and> (of_char c :: nat) \<le> 57)"

definition hex_val :: "char \<Rightarrow> nat option" where
  "hex_val c =
     (let n = (of_char c :: nat)
      in if 48 \<le> n \<and> n \<le> 57 then Some (n - 48)
         else if 65 \<le> n \<and> n \<le> 70 then Some (n - 55)
         else if 97 \<le> n \<and> n \<le> 102 then Some (n - 87)
         else None)"

definition unescape :: "char \<Rightarrow> char option" where
  "unescape e =
     (if e = CHR 0x22 \<or> e = CHR 0x5C \<or> e = CHR ''/'' then Some e
      else if e = CHR ''b'' then Some (CHR 0x08)
      else if e = CHR ''f'' then Some (CHR 0x0C)
      else if e = CHR ''n'' then Some (CHR 0x0A)
      else if e = CHR ''r'' then Some (CHR 0x0D)
      else if e = CHR ''t'' then Some (CHR 0x09)
      else None)"

definition hex4 :: "string \<Rightarrow> nat option" where
  "hex4 s =
     (case map hex_val s of
        [Some a, Some b, Some c, Some d] \<Rightarrow> Some (((a * 16 + b) * 16 + c) * 16 + d)
      | _ \<Rightarrow> None)"

definition is_high_surrogate :: "nat \<Rightarrow> bool" where
  "is_high_surrogate n = (55296 \<le> n \<and> n \<le> 56319)"

definition is_low_surrogate :: "nat \<Rightarrow> bool" where
  "is_low_surrogate n = (56320 \<le> n \<and> n \<le> 57343)"

definition join_surrogates :: "nat \<Rightarrow> nat \<Rightarrow> nat" where
  "join_surrogates hi lo = 65536 + ((hi - 55296) * 1024 + (lo - 56320))"

text \<open>
  The code points of a string after its opening quote, up to the closing quote, and the
  text after it. A control character, an unknown escape and a \<open>\u\<close> without four
  hexadecimal digits are errors.
\<close>

function scan_string :: "string \<Rightarrow> (nat list \<times> string) option" where
  "scan_string [] = None"
| "scan_string (c # r) =
     (if c = CHR 0x22 then Some ([], r)
      else if c = CHR 0x5C then
        (case r of
           [] \<Rightarrow> None
         | e # r' \<Rightarrow>
             if e = CHR ''u'' then
               (case hex4 (take 4 r') of
                  None \<Rightarrow> None
                | Some n \<Rightarrow>
                    if is_high_surrogate n \<and> starts_with [CHR 0x5C, CHR ''u''] (drop 4 r') then
                      (case hex4 (take 4 (drop 6 r')) of
                         None \<Rightarrow> None
                       | Some n2 \<Rightarrow>
                           if is_low_surrogate n2
                           then map_option (\<lambda>(t, q). (join_surrogates n n2 # t, q))
                                  (scan_string (drop 10 r'))
                           else map_option (\<lambda>(t, q). (n # t, q)) (scan_string (drop 4 r')))
                    else map_option (\<lambda>(t, q). (n # t, q)) (scan_string (drop 4 r')))
             else
               (case unescape e of
                  None \<Rightarrow> None
                | Some x \<Rightarrow> map_option (\<lambda>(t, q). (of_char x # t, q)) (scan_string r')))
      else if (of_char c :: nat) < 32 then None
      else map_option (\<lambda>(t, q). (of_char c # t, q)) (scan_string r))"
  by pat_completeness auto
termination
  by (relation "measure length") auto

text \<open>
  The number pattern \<open>(-?(?:0|[1-9][0-9]*))(\.[0-9]+)?([eE][-+]?[0-9]+)?\<close> at the start
  of the text: the literal matched and the text after it.
\<close>

definition scan_int :: "string \<Rightarrow> (string \<times> string) option" where
  "scan_int s =
     (let sign = takeWhile (\<lambda>c. c = CHR ''-'') (take 1 s);
          r = drop (length sign) s
      in case r of
           [] \<Rightarrow> None
         | d # r' \<Rightarrow>
             if d = CHR ''0'' then Some (sign @ [d], r')
             else if is_digit d then Some (sign @ takeWhile is_digit r, dropWhile is_digit r)
             else None)"

definition scan_frac :: "string \<Rightarrow> string \<times> string" where
  "scan_frac s =
     (case s of
        [] \<Rightarrow> ([], s)
      | c # r \<Rightarrow>
          if c = CHR ''.'' \<and> takeWhile is_digit r \<noteq> []
          then (c # takeWhile is_digit r, dropWhile is_digit r)
          else ([], s))"

definition scan_exp :: "string \<Rightarrow> string \<times> string" where
  "scan_exp s =
     (case s of
        [] \<Rightarrow> ([], s)
      | c # r \<Rightarrow>
          (let sign = takeWhile (\<lambda>x. x = CHR ''-'' \<or> x = CHR ''+'') (take 1 r);
               r' = drop (length sign) r
           in if (c = CHR ''e'' \<or> c = CHR ''E'') \<and> takeWhile is_digit r' \<noteq> []
              then (c # sign @ takeWhile is_digit r', dropWhile is_digit r')
              else ([], s)))"

definition scan_number :: "string \<Rightarrow> (string \<times> string) option" where
  "scan_number s =
     (case scan_int s of
        None \<Rightarrow> None
      | Some (i, r) \<Rightarrow>
          (let (f, r') = scan_frac r; (e, r'') = scan_exp r'
           in Some (i @ f @ e, r'')))"

text \<open>
  A value at the start of the text, the elements of an array after its opening bracket,
  and the members of an object after its opening brace, each with the text that follows.
\<close>

fun scan_value :: "nat \<Rightarrow> string \<Rightarrow> (nat list json \<times> string) option"
  and scan_array :: "nat \<Rightarrow> nat list json list \<Rightarrow> string \<Rightarrow> (nat list json \<times> string) option"
  and scan_object :: "nat \<Rightarrow> (nat list \<times> nat list json) list \<Rightarrow> string \<Rightarrow> (nat list json \<times> string) option"
where
  "scan_value 0 s = None"
| "scan_value (Suc n) s =
     (case s of
        [] \<Rightarrow> None
      | c # r \<Rightarrow>
          if c = CHR 0x22 then map_option (\<lambda>(t, q). (JString t, q)) (scan_string r)
          else if c = CHR 0x7B then
            (case skip_ws r of
               [] \<Rightarrow> None
             | d # q \<Rightarrow>
                 if d = CHR 0x7D then Some (JObject [], q)
                 else scan_object n [] (d # q))
          else if c = CHR 0x5B then
            (case skip_ws r of
               [] \<Rightarrow> None
             | d # q \<Rightarrow>
                 if d = CHR 0x5D then Some (JArray [], q)
                 else scan_array n [] (d # q))
          else if starts_with ''null'' s then Some (JNull, drop 4 s)
          else if starts_with ''true'' s then Some (JBool True, drop 4 s)
          else if starts_with ''false'' s then Some (JBool False, drop 5 s)
          else
            (case scan_number s of
               Some (lit, q) \<Rightarrow> Some (JNumber lit, q)
             | None \<Rightarrow>
                 if starts_with ''NaN'' s then Some (JNumber ''NaN'', drop 3 s)
                 else if starts_with ''Infinity'' s then Some (JNumber ''Infinity'', drop 8 s)
                 else if starts_with ''-Infinity'' s then Some (JNumber ''-Infinity'', drop 9 s)
                 else None))"
| "scan_array 0 acc s = None"
| "scan_array (Suc n) acc s =
     (case scan_value n s of
        None \<Rightarrow> None
      | Some (v, r) \<Rightarrow>
          (case skip_ws r of
             [] \<Rightarrow> None
           | c # q \<Rightarrow>
               if c = CHR 0x5D then Some (JArray (acc @ [v]), q)
               else if c = CHR '','' then scan_array n (acc @ [v]) (skip_ws q)
               else None))"
| "scan_object 0 acc s = None"
| "scan_object (Suc n) acc s =
     (case s of
        [] \<Rightarrow> None
      | c # r \<Rightarrow>
          if c = CHR 0x22 then
            (case scan_string r of
               None \<Rightarrow> None
             | Some (key, r1) \<Rightarrow>
                 (case skip_ws r1 of
                    [] \<Rightarrow> None
                  | d # r2 \<Rightarrow>
                      if d = CHR '':'' then
                        (case scan_value n (skip_ws r2) of
                           None \<Rightarrow> None
                         | Some (v, r3) \<Rightarrow>
                             (case skip_ws r3 of
                                [] \<Rightarrow> None
                              | e # q \<Rightarrow>
                                  if e = CHR 0x7D then Some (JObject (dict_set key v acc), q)
                                  else if e = CHR '',''
                                  then scan_object n (dict_set key v acc) (skip_ws q)
                                  else None))
                      else None))
          else None)"

definition json_loads :: "string \<Rightarrow> py_exn + nat list json" where
  "json_loads s =
     (case scan_value (2 * length s + 2) (skip_ws s) of
        None \<Rightarrow> Inl (JSONDecodeError ''Expecting value'')
      | Some (v, r) \<Rightarrow>
          if skip_ws r = [] then Inr v else Inl (JSONDecodeError ''Extra data''))"

section \<open>The response normalizer\<close>

text \<open>
  The loop of \<open>_parse_json_response\<close> over the lines of the response, with its state
  \<open>in_json_block\<close> and \<open>json_lines\<close>: a line that starts, once stripped, with the opening
  fence labelled \<open>json\<close> or followed by a brace opens the block; the bare fence closes it
  and ends the loop; the lines between are collected.
\<close>

fun collect_json_lines :: "bool \<Rightarrow> string list \<Rightarrow> string list \<Rightarrow> string list" where
  "collect_json_lines in_json_block json_lines [] = json_lines"
| "collect_json_lines in_json_block json_lines (l # ls) =
     (if starts_with ''```json'' (strip l) \<or> starts_with ''```{'' (strip l)
      then collect_json_lines True json_lines ls
      else if strip l = ''```'' \<and> in_json_block then json_lines
      else if in_json_block then collect_json_lines in_json_block (json_lines @ [l]) ls
      else collect_json_lines in_json_block json_lines ls)"

text \<open>
  \<open>_parse_json_response\<close> returns a Python value: the decoded value, or \<open>None\<close>. The
  parameter \<open>none\<close> is the value \<open>None\<close> among the decoded values, the one the decoder
  gives for the JSON text \<open>null\<close>. The handlers catch the decode error only; any other
  exception of the decoder leaves the function.
\<close>

definition parse_json_response :: "(string \<Rightarrow> py_exn + 'j) \<Rightarrow> 'j \<Rightarrow> string \<Rightarrow> py_exn + 'j" where
  "parse_json_response loads none response_text =
     (case loads response_text of
        Inr v \<Rightarrow> Inr v
      | Inl (JSONDecodeError m) \<Rightarrow>
          (let lines = split_nl (strip response_text);
               json_lines = collect_json_lines False [] lines
           in if json_lines \<noteq> [] then
                (case loads (join_nl json_lines) of
                   Inr v \<Rightarrow> Inr v
                 | Inl (JSONDecodeError m') \<Rightarrow> Inr none
                 | Inl e \<Rightarrow> Inl e)
              else Inr none)
      | Inl e \<Rightarrow> Inl e)"

text \<open>
  The responses of the claims: the payload between a fence line with a label and the
  closing fence line, for any label and for the labels \<open>structured\<close> and \<open>json\<close>, and
  plain text.
\<close>

definition resp_payload :: string where
  "resp_payload = ''{\"suggestions\":[]}''"

definition fenced_response :: "string \<Rightarrow> string" where
  "fenced_response label = ''```'' @ label @ CHR 0x0A # resp_payload @ CHR 0x0A # ''```''"

definition resp_structured :: string where
  "resp_structured = ''```structured\<newline>{\"suggestions\":[]}\<newline>```''"

definition resp_json :: string where
  "resp_json = ''```json\<newline>{\"suggestions\":[]}\<newline>```''"

definition resp_plain :: string where
  "resp_plain = ''not json at all''"

section \<open>The notebook parser\<close>

text \<open>
  \<open>load_notebook\<close>: \<open>json.loads\<close> and \<open>nbformat.from_dict\<close> are library functions and are
  parameters; the handler catches the decode error and the validation error of either
  call. \<open>Inr None\<close> is the returned \<open>None\<close>.
\<close>

definition load_notebook ::
    "(string \<Rightarrow> py_exn + 'j) \<Rightarrow> ('j \<Rightarrow> py_exn + 'nb) \<Rightarrow> string \<Rightarrow> py_exn + 'nb option" where
  "load_notebook loads from_dict content =
     (case loads content of
        Inl (JSONDecodeError m) \<Rightarrow> Inr None
      | Inl (ValidationError m) \<Rightarrow> Inr None
      | Inl e \<Rightarrow> Inl e
      | Inr notebook_dict \<Rightarrow>
          (case from_dict notebook_dict of
             Inl (JSONDecodeError m) \<Rightarrow> Inr None
           | Inl (ValidationError m) \<Rightarrow> Inr None
           | Inl e \<Rightarrow> Inl e
           | Inr notebook \<Rightarrow> Inr (Some notebook)))"

text \<open>
  The result of \<open>analyze_notebook_structure\<close> is either the dictionary with the single
  key \<open>error\<close> or the analysis with all its fields. The guard \<open>if not notebook\<close> is false
  for \<open>None\<close> and for an empty notebook node; \<open>truthy\<close> is the truth value of a node. The
  analysis of a loaded notebook (metadata, cells, code blocks, progression, outputs and
  statistics) is the parameter \<open>analysis_of\<close>, which may raise: the properties below hold
  whatever it computes.
\<close>

datatype 'a nb_result = NbError string | NbAnalysis 'a

definition analyze_notebook_structure ::
    "(string \<Rightarrow> py_exn + 'j) \<Rightarrow> ('j \<Rightarrow> py_exn + 'nb) \<Rightarrow> ('nb \<Rightarrow> bool) \<Rightarrow>
     ('nb \<Rightarrow> string \<Rightarrow> py_exn + 'a) \<Rightarrow> string \<Rightarrow> string \<Rightarrow> py_exn + 'a nb_result" where
  "analyze_notebook_structure loads from_dict truthy analysis_of content file_path =
     (case load_notebook loads from_dict content of
        Inl e \<Rightarrow> Inl e
      | Inr None \<Rightarrow> Inr (NbError ''Failed to load notebook'')
      | Inr (Some notebook) \<Rightarrow>
          if \<not> truthy notebook then Inr (NbError ''Failed to load notebook'')
          else (case analysis_of notebook file_path of
                  Inl e \<Rightarrow> Inl e
                | Inr analysis \<Rightarrow> Inr (NbAnalysis analysis)))"

section \<open>The orchestrator\<close>

text \<open>
  The entry of a file in the dictionary of processed content: the dictionary with the
  keys \<open>error\<close> and \<open>processed_content\<close> that \<open>_process_all_content\<close> stores when the
  processing raised, or the dictionary that \<open>_process_single_content\<close> returns.
\<close>

record 'st processed =
  pc_structure :: 'st
  pc_processed_content :: string
  pc_metadata :: "(string \<times> string) list"
  pc_content_type :: string

datatype 'st content_data = ProcError string string | Processed "'st processed"

text \<open>
  \<open>_process_all_content\<close>: the loop over the items of \<open>content_map\<close>. The processing of
  one file, \<open>_process_single_content\<close>, is the parameter \<open>process\<close>; an exception it raises
  is caught and stored with the raw content.
\<close>

fun process_all_from ::
    "(string \<Rightarrow> string \<Rightarrow> py_exn + 'st processed) \<Rightarrow> (string \<times> 'st content_data) list \<Rightarrow>
     (string \<times> string) list \<Rightarrow> (string \<times> 'st content_data) list" where
  "process_all_from process processed [] = processed"
| "process_all_from process processed ((file_path, content) # rest) =
     process_all_from process
       (dict_set file_path
          (case process file_path content of
             Inr d \<Rightarrow> Processed d
           | Inl e \<Rightarrow> ProcError (exn_str e) content)
          processed)
       rest"

definition process_all_content ::
    "(string \<Rightarrow> string \<Rightarrow> py_exn + 'st processed) \<Rightarrow> (string \<times> string) list \<Rightarrow>
     (string \<times> 'st content_data) list" where
  "process_all_content process content_map = process_all_from process [] content_map"

text \<open>
  \<open>_analyze_with_ai\<close>: the loop over the processed content. The state is the dictionary
  of results, where \<open>None\<close> (Python's \<open>None\<close>) and \<open>Some\<close> of an analysis are the values,
  and the list of the calls made to \<open>gemini_client.analyze_content\<close>, each with its
  arguments content, file path and chapter title. That method is the parameter
  \<open>analyze_content\<close>; it returns an analysis or \<open>None\<close>, or raises.
\<close>

type_synonym backend_call = "string \<times> string \<times> string"

fun analyze_from ::
    "(string \<Rightarrow> string \<Rightarrow> string \<Rightarrow> py_exn + 'r option) \<Rightarrow>
     (string \<times> 'r option) list \<times> backend_call list \<Rightarrow> (string \<times> 'st content_data) list \<Rightarrow>
     (string \<times> 'r option) list \<times> backend_call list" where
  "analyze_from analyze_content (analysis_results, calls) [] = (analysis_results, calls)"
| "analyze_from analyze_content (analysis_results, calls) ((file_path, content_data) # rest) =
     (case content_data of
        ProcError err raw \<Rightarrow>
          analyze_from analyze_content (dict_set file_path None analysis_results, calls) rest
      | Processed d \<Rightarrow>
          (let processed_text = pc_processed_content d;
               title = (case map_of (pc_metadata d) ''title'' of
                          Some t \<Rightarrow> t | None \<Rightarrow> file_path)
           in if length (strip processed_text) < 100 then
                analyze_from analyze_content
                  (dict_set file_path None analysis_results, calls) rest
              else
                (case analyze_content processed_text file_path title of
                   Inr result \<Rightarrow>
                     analyze_from analyze_content
                       (dict_set file_path result analysis_results,
                        calls @ [(processed_text, file_path, title)]) rest
                 | Inl e \<Rightarrow>
                     analyze_from analyze_content
                       (dict_set file_path None analysis_results,
                        calls @ [(processed_text, file_path, title)]) rest)))"

definition analyze_with_ai ::
    "(string \<Rightarrow> string \<Rightarrow> string \<Rightarrow> py_exn + 'r option) \<Rightarrow> (string \<times> 'st content_data) list \<Rightarrow>
     (string \<times> 'r option) list \<times> backend_call list" where
  "analyze_with_ai analyze_content processed_content =
     analyze_from analyze_content ([], []) processed_content"

text \<open>Steps 2 and 3 of \<open>analyze_repository\<close>: the content is processed, then analysed.\<close>

definition process_and_analyze ::
    "(string \<Rightarrow> string \<Rightarrow> py_exn + 'st processed) \<Rightarrow>
     (string \<Rightarrow> string \<Rightarrow> string \<Rightarrow> py_exn + 'r option) \<Rightarrow> (string \<times> string) list \<Rightarrow>
     (string \<times> 'r option) list \<times> backend_call list" where
  "process_and_analyze process analyze_content content_map =
     analyze_with_ai analyze_content (process_all_content process content_map)"

text \<open>
  For the statement of the properties of the two loops: the entry that one pass of the
  body of \<open>_process_all_content\<close> stores for a file, and the value and the calls that one
  pass of the body of \<open>_analyze_with_ai\<close> gives for an entry.
\<close>

definition entry_of ::
    "(string \<Rightarrow> string \<Rightarrow> py_exn + 'st processed) \<Rightarrow> string \<Rightarrow> string \<Rightarrow> 'st content_data" where
  "entry_of process file_path content =
     (case process file_path content of
        Inr d \<Rightarrow> Processed d
      | Inl e \<Rightarrow> ProcError (exn_str e) content)"

definition title_of :: "'st processed \<Rightarrow> string \<Rightarrow> string" where
  "title_of d file_path =
     (case map_of (pc_metadata d) ''title'' of Some t \<Rightarrow> t | None \<Rightarrow> file_path)"

definition outcome_of ::
    "(string \<Rightarrow> string \<Rightarrow> string \<Rightarrow> py_exn + 'r option) \<Rightarrow> string \<Rightarrow> 'st content_data \<Rightarrow> 'r option" where
  "outcome_of analyze_content file_path content_data =
     (case content_data of
        ProcError err raw \<Rightarrow> None
      | Processed d \<Rightarrow>
          if length (strip (pc_processed_content d)) < 100 then None
          else (case analyze_content (pc_processed_content d) file_path (title_of d file_path) of
                  Inr result \<Rightarrow> result
                | Inl e \<Rightarrow> None))"

definition calls_of :: "string \<Rightarrow> 'st content_data \<Rightarrow> backend_call list" where
  "calls_of file_path content_data =
     (case content_data of
        ProcError err raw \<Rightarrow> []
      | Processed d \<Rightarrow>
          if length (strip (pc_processed_content d)) < 100 then []
          else [(pc_processed_content d, file_path, title_of d file_path)])"

text \<open>
  Inputs for the examples: a payload of 50 characters and one of 120, a backend that
  raises and one that answers with no suggestion, and a processing that raises on the
  file \<open>b.ipynb\<close> and passes any other content on.
\<close>

definition short_payload :: string where
  "short_payload = replicate 50 (CHR ''x'')"

definition long_payload :: string where
  "long_payload = replicate 120 (CHR ''x'')"

definition processed_of :: "string \<Rightarrow> unit processed" where
  "processed_of content =
     \<lparr>pc_structure = (), pc_processed_content = content, pc_metadata = [],
      pc_content_type = ''text''\<rparr>"

definition backend_raises :: "string \<Rightarrow> string \<Rightarrow> string \<Rightarrow> py_exn + string json option" where
  "backend_raises content file_path title = Inl (OtherException ''backend unavailable'')"

definition backend_answers :: "string \<Rightarrow> string \<Rightarrow> string \<Rightarrow> py_exn + string json option" where
  "backend_answers content file_path title = Inr (Some (JObject [(''suggestions'', JArray [])]))"

definition process_raising_on_b :: "string \<Rightarrow> string \<Rightarrow> py_exn + unit processed" where
  "process_raising_on_b file_path content =
     (if file_path = ''b.ipynb'' then Inl (OtherException ''cells'')
      else Inr (processed_of content))"

definition two_entries :: "(string \<times> unit content_data) list" where
  "two_entries = [(''a.md'', Processed (processed_of short_payload)),
                  (''b.md'', Processed (processed_of long_payload))]"

definition three_files :: "(string \<times> string) list" where
  "three_files = [(''a.md'', long_payload), (''b.ipynb'', long_payload), (''c.md'', long_payload)]"

text \<open>A text that is no JSON, and a JSON object that is no notebook.\<close>

definition nb_not_json :: string where
  "nb_not_json = ''{not a notebook''"

definition nb_no_cells :: string where
  "nb_no_cells = ''{\"a\": 1}''"

section \<open>Notebook nodes\<close>

text \<open>
  \<open>nbformat.from_dict\<close> turns the dictionaries of a decoded value into notebook nodes,
  dictionaries whose keys can be read as attributes, and leaves every other value as it
  is; it checks nothing and raises nothing. A decoded value is its own node.
\<close>

type_synonym node = "nat list json"

definition nb_from_dict :: "node \<Rightarrow> py_exn + node" where
  "nb_from_dict notebook_dict = Inr notebook_dict"

text \<open>
  The value of a number literal is zero when its digits are, and, for a literal with a
  fraction or an exponent, which the decoder reads as a float, when it is at most
  \<open>2 ^ -1075\<close> in absolute value, which rounds to zero.
\<close>

definition digits_value :: "string \<Rightarrow> int" where
  "digits_value ds = foldl (\<lambda>a c. 10 * a + (int (of_char c) - 48)) 0 ds"

definition number_is_zero :: "string \<Rightarrow> bool" where
  "number_is_zero lit =
     (let body = dropWhile (\<lambda>c. c = CHR ''-'') lit;
          ipart = takeWhile is_digit body;
          r1 = dropWhile is_digit body;
          has_frac = starts_with ''.'' r1;
          fpart = (if has_frac then takeWhile is_digit (drop 1 r1) else []);
          r2 = (if has_frac then dropWhile is_digit (drop 1 r1) else r1);
          has_exp = (r2 \<noteq> []);
          exp_val = digits_value (filter is_digit r2);
          exponent = (if starts_with ''-'' (drop 1 r2) then - exp_val else exp_val)
                       - int (length fpart);
          m = digits_value (ipart @ fpart)
      in if ipart = [] then False
         else if \<not> has_frac \<and> \<not> has_exp then m = 0
         else m = 0 \<or> (exponent < 0 \<and> m * 2 ^ 1075 \<le> 10 ^ nat (- exponent)))"

text \<open>\<open>bool(x)\<close> for a node: the guard \<open>if not notebook\<close> is its negation.\<close>

fun node_truthy :: "node \<Rightarrow> bool" where
  "node_truthy JNull = False"
| "node_truthy (JBool b) = b"
| "node_truthy (JNumber lit) = (\<not> number_is_zero lit)"
| "node_truthy (JString s) = (s \<noteq> [])"
| "node_truthy (JArray xs) = (xs \<noteq> [])"
| "node_truthy (JObject members) = (members \<noteq> [])"

text \<open>
  \<open>node.name\<close> for the names the parser reads, none of which is a method of a
  dictionary: the member of a notebook node, the attribute error with the name when the
  node has no such member, and the attribute error for any value that is no dictionary.
  \<open>hasattr\<close> is whether the read succeeds.
\<close>

fun node_attr :: "node \<Rightarrow> string \<Rightarrow> py_exn + node" where
  "node_attr (JObject members) name =
     (case map_of members (codes name) of
        Some v \<Rightarrow> Inr v
      | None \<Rightarrow> Inl (AttributeError name))"
| "node_attr v name = Inl (AttributeError name)"

definition node_hasattr :: "node \<Rightarrow> string \<Rightarrow> bool" where
  "node_hasattr v name = (case node_attr v name of Inr x \<Rightarrow> True | Inl e \<Rightarrow> False)"

text \<open>The substring test on lists of code points.\<close>

fun contains_codes :: "nat list \<Rightarrow> nat list \<Rightarrow> bool" where
  "contains_codes needle [] = (needle = [])"
| "contains_codes needle (c # cs) =
     (take (length needle) (c # cs) = needle \<or> contains_codes needle cs)"

text \<open>
  \<open>key in v\<close>, \<open>v[key]\<close> and \<open>v.get(key, default)\<close> for a text \<open>key\<close>: membership is the
  key of a dictionary, an equal element of a list, a substring of a string, and a type
  error for the other values; indexing by a text is defined for dictionaries only, and
  \<open>get\<close> is a method of dictionaries only.
\<close>

fun node_in :: "string \<Rightarrow> node \<Rightarrow> py_exn + bool" where
  "node_in key (JObject members) = Inr (map_of members (codes key) \<noteq> None)"
| "node_in key (JArray xs) = Inr (JString (codes key) \<in> set xs)"
| "node_in key (JString s) = Inr (contains_codes (codes key) s)"
| "node_in key v = Inl (TypeError ''argument is not iterable'')"

fun node_getitem :: "node \<Rightarrow> string \<Rightarrow> py_exn + node" where
  "node_getitem (JObject members) key =
     (case map_of members (codes key) of
        Some v \<Rightarrow> Inr v
      | None \<Rightarrow> Inl (OtherException ''KeyError''))"
| "node_getitem (JArray xs) key = Inl (TypeError ''list indices must be integers'')"
| "node_getitem (JString s) key = Inl (TypeError ''string indices must be integers'')"
| "node_getitem v key = Inl (TypeError ''value is not subscriptable'')"

fun node_get :: "node \<Rightarrow> string \<Rightarrow> node \<Rightarrow> py_exn + node" where
  "node_get (JObject members) key dflt =
     (case map_of members (codes key) of Some v \<Rightarrow> Inr v | None \<Rightarrow> Inr dflt)"
| "node_get v key dflt = Inl (AttributeError ''get'')"

text \<open>
  \<open>NotebookParser.extract_metadata\<close>: the loop over the common fields, then the kernel
  information. The metadata is a dictionary from names to nodes.
\<close>

fun copy_fields :: "node \<Rightarrow> (string \<times> node) list \<Rightarrow> string list \<Rightarrow> py_exn + (string \<times> node) list" where
  "copy_fields nb_meta metadata [] = Inr metadata"
| "copy_fields nb_meta metadata (field # names) =
     (case node_in field nb_meta of
        Inl e \<Rightarrow> Inl e
      | Inr present \<Rightarrow>
          if present then
            (case node_getitem nb_meta field of
               Inl e \<Rightarrow> Inl e
             | Inr v \<Rightarrow> copy_fields nb_meta (dict_set field v metadata) names)
          else copy_fields nb_meta metadata names)"

definition kernel_info :: "node \<Rightarrow> (string \<times> node) list \<Rightarrow> py_exn + (string \<times> node) list" where
  "kernel_info nb_meta metadata =
     (case node_in ''kernelspec'' nb_meta of
        Inl e \<Rightarrow> Inl e
      | Inr present \<Rightarrow>
          if present then
            (case node_getitem nb_meta ''kernelspec'' of
               Inl e \<Rightarrow> Inl e
             | Inr kernelspec \<Rightarrow>
                 (case node_get kernelspec ''name'' (JString (codes ''unknown'')) of
                    Inl e \<Rightarrow> Inl e
                  | Inr kernel_name \<Rightarrow>
                      (case node_get kernelspec ''display_name'' (JString (codes ''unknown'')) of
                         Inl e \<Rightarrow> Inl e
                       | Inr display_name \<Rightarrow>
                           (case node_get kernelspec ''language'' (JString (codes ''unknown'')) of
                              Inl e \<Rightarrow> Inl e
                            | Inr language \<Rightarrow>
                                Inr (dict_set ''language'' language
                                      (dict_set ''kernel_display_name'' display_name
                                        (dict_set ''kernel_name'' kernel_name metadata)))))))
          else Inr metadata)"

definition nb_extract_metadata :: "node \<Rightarrow> py_exn + (string \<times> node) list" where
  "nb_extract_metadata notebook =
     (case node_attr notebook ''metadata'' of
        Inl e \<Rightarrow> Inr []
      | Inr nb_meta \<Rightarrow>
          if node_truthy nb_meta then
            (case copy_fields nb_meta []
                    [''title'', ''authors'', ''description'', ''keywords'', ''language''] of
               Inl e \<Rightarrow> Inl e
             | Inr metadata \<Rightarrow> kernel_info nb_meta metadata)
          else Inr [])"

text \<open>
  The analysis of a loaded notebook, from the extraction of the metadata to the first
  read of \<open>notebook.cells\<close> in \<open>extract_cells_by_type\<close>. What the parser computes from the
  cells after that read is the parameter \<open>of_cells\<close>, which may raise.
\<close>

definition nb_analysis ::
    "((string \<times> node) list \<Rightarrow> node \<Rightarrow> node \<Rightarrow> string \<Rightarrow> py_exn + 'a) \<Rightarrow> node \<Rightarrow> string \<Rightarrow> py_exn + 'a" where
  "nb_analysis of_cells notebook file_path =
     (case nb_extract_metadata notebook of
        Inl e \<Rightarrow> Inl e
      | Inr metadata \<Rightarrow>
          (case node_attr notebook ''cells'' of
             Inl e \<Rightarrow> Inl e
           | Inr cells \<Rightarrow> of_cells metadata cells notebook file_path))"

section \<open>Properties of the Markdown parser\<close>

subsection \<open>Headers and sections\<close>

lemma split_nl_ne: "split_nl s \<noteq> []"
  by (induction s) (auto split: list.splits)

lemma upt_0_Suc_map: "[0..<Suc k] = 0 # map Suc [0..<k]"
  by (simp only: upt_conv_Cons[of 0 "Suc k"] map_Suc_upt)

lemma headers_from_lines:
  "map hdr_line (headers_from n ls)
   = map (\<lambda>j. Suc (j + n)) (filter (\<lambda>j. atx_match (ls ! j) \<noteq> None) [0..<length ls])"
proof (induction ls arbitrary: n)
  case Nil
  then show ?case by simp
next
  case (Cons l ls)
  have u: "[0..<length (l # ls)] = 0 # map Suc [0..<length ls]"
    using upt_0_Suc_map[of "length ls"] by simp
  show ?case
    unfolding u using Cons.IH[of "Suc n"]
    by (auto simp: filter_map comp_def split: option.splits)
qed

lemma headers_from_mem:
  "h \<in> set (headers_from n ls) \<Longrightarrow>
     n < hdr_line h \<and> hdr_line h \<le> n + length ls \<and>
     (\<exists>g1 g2. atx_match (ls ! (hdr_line h - 1 - n)) = Some (g1, g2) \<and>
        hdr_level h = length g1 \<and> hdr_text h = strip g2)"
proof (induction ls arbitrary: n)
  case Nil
  then show ?case by simp
next
  case (Cons l ls)
  show ?case
  proof (cases "h \<in> set (headers_from (Suc n) ls)")
    case True
    from Cons.IH[OF True] show ?thesis
      by (auto simp: nth_Cons' Suc_diff_Suc)
  next
    case False
    with Cons.prems obtain g1 g2 where "atx_match l = Some (g1, g2)"
      "h = \<lparr>hdr_level = length g1, hdr_text = strip g2, hdr_line = n + 1\<rparr>"
      by (auto split: option.splits)
    then show ?thesis by simp
  qed
qed

lemma sections_from_length: "length (sections_from ls hs) = length hs"
  by (induction hs) (simp_all add: Let_def)

lemma sections_from_nth:
  "i < length hs \<Longrightarrow>
   sections_from ls hs ! i =
     \<lparr>sec_title = hdr_text (hs ! i), sec_level = hdr_level (hs ! i),
      sec_content = join_nl (slice ls (hdr_line (hs ! i) - 1)
                      (find_end (hdr_level (hs ! i)) (length ls) (drop (Suc i) hs))),
      sec_start_line = hdr_line (hs ! i) - 1 + 1,
      sec_end_line = find_end (hdr_level (hs ! i)) (length ls) (drop (Suc i) hs)\<rparr>"
proof (induction hs arbitrary: i)
  case Nil
  then show ?case by simp
next
  case (Cons h hs)
  then show ?case by (cases i) (simp_all add: Let_def)
qed

lemma find_end_none:
  "\<forall>h \<in> set hs. lvl < hdr_level h \<Longrightarrow> find_end lvl d hs = d"
  by (induction hs) auto

lemma find_end_first:
  "j < length hs \<Longrightarrow> hdr_level (hs ! j) \<le> lvl \<Longrightarrow>
   (\<And>k. k < j \<Longrightarrow> lvl < hdr_level (hs ! k)) \<Longrightarrow>
   find_end lvl d hs = hdr_line (hs ! j) - 1"
proof (induction hs arbitrary: j)
  case Nil
  then show ?case by simp
next
  case (Cons h hs)
  show ?case
  proof (cases j)
    case 0
    with Cons.prems show ?thesis by simp
  next
    case (Suc j')
    have "lvl < hdr_level h" using Cons.prems(3)[of 0] Suc by simp
    moreover have "find_end lvl d hs = hdr_line (hs ! j') - 1"
    proof (rule Cons.IH)
      show "j' < length hs" using Cons.prems(1) Suc by simp
      show "hdr_level (hs ! j') \<le> lvl" using Cons.prems(2) Suc by simp
      show "\<And>k. k < j' \<Longrightarrow> lvl < hdr_level (hs ! k)"
        using Cons.prems(3)[of "Suc _"] Suc by simp
    qed
    ultimately show ?thesis using Suc by simp
  qed
qed

lemma headers_from_line_pos: "h \<in> set (headers_from n ls) \<Longrightarrow> 0 < hdr_line h"
  using headers_from_mem[of h n ls] by simp

lemma headers_from_sorted: "sorted_wrt (<) (map hdr_line (headers_from n ls))"
proof -
  have "sorted_wrt (<) (filter (\<lambda>j. atx_match (ls ! j) \<noteq> None) [0..<length ls])"
    by (rule sorted_wrt_filter) (simp add: strict_sorted_iff[symmetric] sorted_wrt_upt)
  then show ?thesis
    unfolding headers_from_lines by (simp add: sorted_wrt_map)
qed

lemma doc_abcd_sections:
  "map (\<lambda>h. (hdr_level h, hdr_text h, hdr_line h)) (extract_headers doc_abcd)
     = [(1, ''A'', 1), (2, ''B'', 3), (2, ''C'', 6), (1, ''D'', 9)] \<and>
   map (\<lambda>s. (sec_title s, sec_start_line s, sec_end_line s)) (extract_sections doc_abcd)
     = [(''A'', 1, 8), (''B'', 3, 5), (''C'', 6, 8), (''D'', 9, 9)]"
  by code_simp

text \<open>
  Claim C1. For every Markdown document, \<open>extract_sections\<close> gives one section per
  extracted header, in document order. The section of a header has the header's text
  and level, starts at the header's 1-based line, and ends at the line before the next
  header whose level is not greater than its own, or at the last line of the document
  when no such header follows; its content is these lines. For the document with
  \<open># A\<close> on line 1, \<open>## B\<close> on line 3, \<open>## C\<close> on line 6 and \<open># D\<close> on line 9,
  section B spans lines 3 to 5 and section A spans lines 1 to 8.
\<close>

theorem extract_sections_spans:
  "let hs = extract_headers content; ss = extract_sections content;
       n = length (split_nl content) in
   length ss = length hs \<and> sorted_wrt (<) (map sec_start_line ss) \<and>
   (\<forall>i<length hs.
      sec_title (ss ! i) = hdr_text (hs ! i) \<and> sec_level (ss ! i) = hdr_level (hs ! i) \<and>
      sec_start_line (ss ! i) = hdr_line (hs ! i) \<and>
      sec_content (ss ! i)
        = join_nl (slice (split_nl content) (sec_start_line (ss ! i) - 1) (sec_end_line (ss ! i))) \<and>
      (\<forall>j. i < j \<and> j < length hs \<and> hdr_level (hs ! j) \<le> hdr_level (hs ! i) \<and>
           (\<forall>k. i < k \<and> k < j \<longrightarrow> hdr_level (hs ! i) < hdr_level (hs ! k))
           \<longrightarrow> sec_end_line (ss ! i) = hdr_line (hs ! j) - 1) \<and>
      ((\<forall>j. i < j \<and> j < length hs \<longrightarrow> hdr_level (hs ! i) < hdr_level (hs ! j))
           \<longrightarrow> sec_end_line (ss ! i) = n)) \<and>
   map (\<lambda>h. (hdr_level h, hdr_text h, hdr_line h)) (extract_headers doc_abcd)
     = [(1, ''A'', 1), (2, ''B'', 3), (2, ''C'', 6), (1, ''D'', 9)] \<and>
   map (\<lambda>s. (sec_title s, sec_start_line s, sec_end_line s)) (extract_sections doc_abcd)
     = [(''A'', 1, 8), (''B'', 3, 5), (''C'', 6, 8), (''D'', 9, 9)]"
proof -
  define hs where "hs = extract_headers content"
  define ls where "ls = split_nl content"
  define ss where "ss = extract_sections content"
  have ss: "ss = sections_from ls hs"
    by (simp add: ss_def ls_def hs_def extract_sections_def)
  have len: "length ss = length hs"
    by (simp add: ss sections_from_length)
  have pos: "0 < hdr_line (hs ! i)" if "i < length hs" for i
    using that headers_from_line_pos[of "hs ! i" 0 ls]
    by (simp add: hs_def ls_def extract_headers_def)
  have nth: "ss ! i =
     \<lparr>sec_title = hdr_text (hs ! i), sec_level = hdr_level (hs ! i),
      sec_content = join_nl (slice ls (hdr_line (hs ! i) - 1)
                      (find_end (hdr_level (hs ! i)) (length ls) (drop (Suc i) hs))),
      sec_start_line = hdr_line (hs ! i),
      sec_end_line = find_end (hdr_level (hs ! i)) (length ls) (drop (Suc i) hs)\<rparr>"
    if "i < length hs" for i
    using sections_from_nth[OF that, of ls] pos[OF that] by (simp add: ss)
  have starts: "map sec_start_line ss = map hdr_line hs"
    by (rule nth_equalityI) (simp_all add: len nth)
  have sorted: "sorted_wrt (<) (map sec_start_line ss)"
    unfolding starts hs_def extract_headers_def by (rule headers_from_sorted)
  have ends1: "sec_end_line (ss ! i) = hdr_line (hs ! j) - 1"
    if "i < j" "j < length hs" "hdr_level (hs ! j) \<le> hdr_level (hs ! i)"
       "\<forall>k. i < k \<and> k < j \<longrightarrow> hdr_level (hs ! i) < hdr_level (hs ! k)" for i j
  proof -
    have i: "i < length hs" using that by simp
    have "find_end (hdr_level (hs ! i)) (length ls) (drop (Suc i) hs)
            = hdr_line (drop (Suc i) hs ! (j - Suc i)) - 1"
    proof (rule find_end_first)
      show "j - Suc i < length (drop (Suc i) hs)" using that by simp
      show "hdr_level (drop (Suc i) hs ! (j - Suc i)) \<le> hdr_level (hs ! i)"
        using that by simp
      show "\<And>k. k < j - Suc i \<Longrightarrow> hdr_level (hs ! i) < hdr_level (drop (Suc i) hs ! k)"
        using that by simp
    qed
    then show ?thesis using that by (simp add: nth[OF i])
  qed
  have ends2: "sec_end_line (ss ! i) = length ls"
    if "i < length hs" "\<forall>j. i < j \<and> j < length hs \<longrightarrow> hdr_level (hs ! i) < hdr_level (hs ! j)"
    for i
  proof -
    have "\<forall>h \<in> set (drop (Suc i) hs). hdr_level (hs ! i) < hdr_level h"
    proof
      fix h assume "h \<in> set (drop (Suc i) hs)"
      then obtain k where "k < length (drop (Suc i) hs)" "h = drop (Suc i) hs ! k"
        by (auto simp: in_set_conv_nth)
      then show "hdr_level (hs ! i) < hdr_level h"
        using that(2) by simp
    qed
    then show ?thesis
      using find_end_none by (simp add: nth[OF that(1)])
  qed
  have gen: "length ss = length hs \<and> sorted_wrt (<) (map sec_start_line ss) \<and>
   (\<forall>i<length hs.
      sec_title (ss ! i) = hdr_text (hs ! i) \<and> sec_level (ss ! i) = hdr_level (hs ! i) \<and>
      sec_start_line (ss ! i) = hdr_line (hs ! i) \<and>
      sec_content (ss ! i)
        = join_nl (slice ls (sec_start_line (ss ! i) - 1) (sec_end_line (ss ! i))) \<and>
      (\<forall>j. i < j \<and> j < length hs \<and> hdr_level (hs ! j) \<le> hdr_level (hs ! i) \<and>
           (\<forall>k. i < k \<and> k < j \<longrightarrow> hdr_level (hs ! i) < hdr_level (hs ! k))
           \<longrightarrow> sec_end_line (ss ! i) = hdr_line (hs ! j) - 1) \<and>
      ((\<forall>j. i < j \<and> j < length hs \<longrightarrow> hdr_level (hs ! i) < hdr_level (hs ! j))
           \<longrightarrow> sec_end_line (ss ! i) = length ls))"
    using len sorted ends1 ends2 by (simp add: nth)
  from gen[unfolded hs_def ls_def ss_def] doc_abcd_sections show ?thesis
    unfolding Let_def by blast
qed

theorem extract_sections_spans_witness:
  "(1::nat) < 2 \<and> 2 < length (extract_headers doc_abcd) \<and>
   hdr_level (extract_headers doc_abcd ! 2) \<le> hdr_level (extract_headers doc_abcd ! 1) \<and>
   sec_end_line (extract_sections doc_abcd ! 1) = hdr_line (extract_headers doc_abcd ! 2) - 1 \<and>
   sec_end_line (extract_sections doc_abcd ! 1) = 5 \<and>
   sec_end_line (extract_sections doc_abcd ! 3) = length (split_nl doc_abcd)"
proof -
  have hs: "extract_headers doc_abcd =
     [\<lparr>hdr_level = 1, hdr_text = ''A'', hdr_line = 1\<rparr>,
      \<lparr>hdr_level = 2, hdr_text = ''B'', hdr_line = 3\<rparr>,
      \<lparr>hdr_level = 2, hdr_text = ''C'', hdr_line = 6\<rparr>,
      \<lparr>hdr_level = 1, hdr_text = ''D'', hdr_line = 9\<rparr>]"
    by code_simp
  have g: "\<forall>i<length (extract_headers doc_abcd).
      (\<forall>j. i < j \<and> j < length (extract_headers doc_abcd) \<and>
           hdr_level (extract_headers doc_abcd ! j) \<le> hdr_level (extract_headers doc_abcd ! i) \<and>
           (\<forall>k. i < k \<and> k < j \<longrightarrow>
              hdr_level (extract_headers doc_abcd ! i) < hdr_level (extract_headers doc_abcd ! k))
           \<longrightarrow> sec_end_line (extract_sections doc_abcd ! i) = hdr_line (extract_headers doc_abcd ! j) - 1) \<and>
      ((\<forall>j. i < j \<and> j < length (extract_headers doc_abcd) \<longrightarrow>
           hdr_level (extract_headers doc_abcd ! i) < hdr_level (extract_headers doc_abcd ! j))
           \<longrightarrow> sec_end_line (extract_sections doc_abcd ! i) = length (split_nl doc_abcd))"
    using extract_sections_spans[of doc_abcd] unfolding Let_def by blast
  have k: "\<forall>k::nat. 1 < k \<and> k < 2 \<longrightarrow> P k" for P by auto
  have b: "sec_end_line (extract_sections doc_abcd ! 1) = hdr_line (extract_headers doc_abcd ! 2) - 1"
    using g[rule_format, of 1, THEN conjunct1, rule_format, of 2] k by (simp add: hs)
  have d: "sec_end_line (extract_sections doc_abcd ! 3) = length (split_nl doc_abcd)"
    using g[rule_format, of 3, THEN conjunct2] by (simp add: hs)
  show ?thesis using b d by (simp add: hs)
qed

subsection \<open>The header pattern\<close>

lemma atx_match_line: "atx_match l \<noteq> None \<Longrightarrow> atx_line l"
proof -
  assume m: "atx_match l \<noteq> None"
  define g1 where "g1 = takeWhile (\<lambda>c. c = CHR ''#'') l"
  define r where "r = dropWhile (\<lambda>c. c = CHR ''#'') l"
  define ws where "ws = takeWhile is_space r"
  define rest where "rest = dropWhile is_space r"
  have l: "l = g1 @ r" by (simp add: g1_def r_def)
  have r: "r = ws @ rest" by (simp add: ws_def rest_def)
  from m have k: "1 \<le> length g1" "length g1 \<le> 6" and w: "ws \<noteq> []"
    and c: "rest \<noteq> [] \<or> 2 \<le> length ws"
    unfolding atx_match_def Let_def g1_def[symmetric] r_def[symmetric] ws_def[symmetric] rest_def[symmetric]
    by (auto split: if_splits)
  have g: "g1 = replicate (length g1) (CHR ''#'')"
    unfolding g1_def by (rule replicate_length_same[symmetric]) (auto dest: set_takeWhileD)
  have sp: "\<forall>c \<in> set ws. is_space c"
    unfolding ws_def by (auto dest: set_takeWhileD)
  define n where "n = (if rest \<noteq> [] then length ws else length ws - 1)"
  have n1: "1 \<le> n" using w c by (cases ws) (auto simp: n_def)
  have len: "length l = length g1 + length ws + length rest"
    by (subst l, subst r) simp
  have n2: "n \<le> length l" unfolding len n_def by (auto intro: le_trans[OF diff_le_self])
  have t: "take (length g1) l = replicate (length g1) (CHR ''#'')"
    using g l by simp
  have d: "drop (length g1) l = ws @ rest" using l r by simp
  have s: "\<forall>c \<in> set (take n (drop (length g1) l)). is_space c"
    using sp unfolding d by (auto simp: n_def dest: in_set_takeD)
  have e: "drop (length g1 + n) l \<noteq> []"
  proof -
    have "drop (length g1 + n) l = drop n (ws @ rest)"
      using d by (metis drop_drop add.commute)
    moreover have "drop n (ws @ rest) \<noteq> []" using w c by (auto simp: n_def)
    ultimately show ?thesis by simp
  qed
  show "atx_line l"
    unfolding atx_line_def
    by (rule bexI[of _ "length g1"], rule bexI[of _ n]) (use k n1 n2 t s e in auto)
qed

lemma atx_line_match: "atx_line l \<Longrightarrow> atx_match l \<noteq> None"
proof -
  assume "atx_line l"
  then obtain k n where k: "1 \<le> k" "k \<le> 6" and n: "1 \<le> n"
    and t: "take k l = replicate k (CHR ''#'')"
    and s: "\<forall>c \<in> set (take n (drop k l)). is_space c"
    and e: "drop (k + n) l \<noteq> []"
    unfolding atx_line_def by auto
  have len: "k + n < length l" using e by simp
  have sk: "is_space (l ! k)"
  proof -
    have "l ! k = take n (drop k l) ! 0" using len n by simp
    moreover have "take n (drop k l) ! 0 \<in> set (take n (drop k l))"
      by (rule nth_mem) (use len n in simp)
    ultimately show ?thesis using s by simp
  qed
  have nh: "l ! k \<noteq> CHR ''#''" using sk by (auto simp: is_space_def)
  have tw: "takeWhile (\<lambda>c. c = CHR ''#'') l = take k l"
  proof (rule takeWhile_eq_take_P_nth)
    fix i assume "i < k" "i < length l"
    then have "l ! i = take k l ! i" by simp
    also have "\<dots> = CHR ''#''" unfolding t using \<open>i < k\<close> by simp
    finally show "l ! i = CHR ''#''" .
  next
    show "k < length l \<Longrightarrow> \<not> l ! k = CHR ''#''" using nh by simp
  qed
  have dw: "dropWhile (\<lambda>c. c = CHR ''#'') l = drop k l"
  proof -
    have "take k l @ dropWhile (\<lambda>c. c = CHR ''#'') l = take k l @ drop k l"
      using takeWhile_dropWhile_id[of "\<lambda>c. c = CHR ''#''" l] tw by simp
    then show ?thesis by (simp only: same_append_eq)
  qed
  have lk: "length (take k l) = k" using len by simp
  obtain c r where dr: "drop k l = c # r" and c: "is_space c"
    using sk len by (cases "drop k l") (auto simp: hd_drop_conv_nth[symmetric])
  have ws: "takeWhile is_space (drop k l) \<noteq> []" using dr c by simp
  have two: "2 \<le> length (takeWhile is_space (drop k l))"
    if "dropWhile is_space (drop k l) = []"
  proof -
    have "takeWhile is_space (drop k l) = drop k l"
      using takeWhile_dropWhile_id[of is_space "drop k l"] that by simp
    then have "length (takeWhile is_space (drop k l)) = length l - k"
      by (simp only: length_drop)
    then show ?thesis using len n by arith
  qed
  show ?thesis
    unfolding atx_match_def Let_def tw dw lk using k ws two by auto
qed

lemma atx_match_iff: "atx_match l \<noteq> None \<longleftrightarrow> atx_line l"
  using atx_match_line atx_line_match by blast

lemma atx_match_Some:
  assumes "atx_match l = Some (g1, g2)"
  shows "g1 = takeWhile (\<lambda>c. c = CHR ''#'') l" and "1 \<le> length g1" and "length g1 \<le> 6"
    and "strip g2 = strip (drop (length g1) l)"
proof -
  define r where "r = dropWhile (\<lambda>c. c = CHR ''#'') l"
  define ws where "ws = takeWhile is_space r"
  define rest where "rest = dropWhile is_space r"
  from assms have g: "g1 = takeWhile (\<lambda>c. c = CHR ''#'') l"
    and k: "1 \<le> length g1" "length g1 \<le> 6" and w: "ws \<noteq> []"
    and c: "(rest \<noteq> [] \<and> g2 = rest) \<or> (rest = [] \<and> g2 = [last ws])"
    unfolding atx_match_def Let_def r_def[symmetric] ws_def[symmetric] rest_def[symmetric]
    by (auto split: if_splits)
  show "g1 = takeWhile (\<lambda>c. c = CHR ''#'') l" by (rule g)
  show "1 \<le> length g1" "length g1 \<le> 6" by (rule k)+
  have r: "drop (length g1) l = r"
    unfolding r_def g by (simp only: dropWhile_eq_drop)
  have lw: "is_space (last ws)"
  proof -
    have "last ws \<in> set (takeWhile is_space r)" using last_in_set[OF w] by (simp only: ws_def)
    then show ?thesis by (rule set_takeWhileD[THEN conjunct2])
  qed
  from c show "strip g2 = strip (drop (length g1) l)"
  proof
    assume "rest \<noteq> [] \<and> g2 = rest"
    then show ?thesis unfolding r by (simp add: strip_def rest_def)
  next
    assume "rest = [] \<and> g2 = [last ws]"
    then show ?thesis using lw unfolding r by (simp add: strip_def rest_def[symmetric])
  qed
qed

text \<open>
  Claim C7, as amended. For every Markdown input, \<open>extract_headers\<close> returns, in document
  order, exactly the lines that start with one to six \<open>#\<close> characters followed by at
  least one whitespace character and at least one more character. The level of a header
  is the number of \<open>#\<close> characters at the start of its line, between 1 and 6; its line
  number is the 1-based position of the line; its text is the rest of the line after the
  \<open>#\<close> characters with leading and trailing whitespace removed. The text is empty when
  that rest is whitespace only.
\<close>

theorem headers_exact:
  "let ls = split_nl content; hs = extract_headers content in
     map hdr_line hs = map Suc (filter (\<lambda>i. atx_line (ls ! i)) [0..<length ls]) \<and>
     (\<forall>h \<in> set hs.
        1 \<le> hdr_line h \<and> hdr_line h \<le> length ls \<and>
        atx_line (ls ! (hdr_line h - 1)) \<and>
        hdr_level h = length (takeWhile (\<lambda>c. c = CHR ''#'') (ls ! (hdr_line h - 1))) \<and>
        1 \<le> hdr_level h \<and> hdr_level h \<le> 6 \<and>
        hdr_text h = strip (drop (hdr_level h) (ls ! (hdr_line h - 1))))"
proof -
  define ls where "ls = split_nl content"
  have a: "map hdr_line (headers_from 0 ls)
      = map Suc (filter (\<lambda>i. atx_line (ls ! i)) [0..<length ls])"
    unfolding headers_from_lines by (simp only: atx_match_iff add_0_right)
  have b: "1 \<le> hdr_line h \<and> hdr_line h \<le> length ls \<and>
        atx_line (ls ! (hdr_line h - 1)) \<and>
        hdr_level h = length (takeWhile (\<lambda>c. c = CHR ''#'') (ls ! (hdr_line h - 1))) \<and>
        1 \<le> hdr_level h \<and> hdr_level h \<le> 6 \<and>
        hdr_text h = strip (drop (hdr_level h) (ls ! (hdr_line h - 1)))"
    if "h \<in> set (headers_from 0 ls)" for h
  proof -
    from headers_from_mem[OF that] obtain g1 g2 where
      p: "0 < hdr_line h" "hdr_line h \<le> length ls"
      and m: "atx_match (ls ! (hdr_line h - 1)) = Some (g1, g2)"
      and v: "hdr_level h = length g1" "hdr_text h = strip g2"
      by auto
    from m have "atx_line (ls ! (hdr_line h - 1))"
      using atx_match_iff[of "ls ! (hdr_line h - 1)"] by simp
    with p v atx_match_Some[OF m] show ?thesis by simp
  qed
  show ?thesis
    unfolding Let_def extract_headers_def ls_def[symmetric] using a b by blast
qed

theorem headers_exact_witness:
  "\<lparr>hdr_level = 2, hdr_text = ''Setup'', hdr_line = 2\<rparr>
     \<in> set (extract_headers ''intro\<newline>##  Setup \<newline>body'') \<and>
   atx_line (split_nl ''intro\<newline>##  Setup \<newline>body'' ! 1) \<and>
   strip (drop 2 (split_nl ''intro\<newline>##  Setup \<newline>body'' ! 1)) = ''Setup''"
proof -
  have hs: "extract_headers ''intro\<newline>##  Setup \<newline>body''
      = [\<lparr>hdr_level = 2, hdr_text = ''Setup'', hdr_line = 2\<rparr>]"
    by code_simp
  have m: "\<lparr>hdr_level = 2, hdr_text = ''Setup'', hdr_line = 2\<rparr>
     \<in> set (extract_headers ''intro\<newline>##  Setup \<newline>body'')"
    by (simp add: hs)
  from headers_exact[of "''intro\<newline>##  Setup \<newline>body''", unfolded Let_def, THEN conjunct2, rule_format, OF m]
  show ?thesis using m by simp
qed

text \<open>
  The line made of one \<open>#\<close> and two spaces matches the pattern, the second space
  standing for the text, and gives a header whose text is empty.
\<close>

theorem header_text_empty_counterexample:
  "extract_headers ''#  '' = [\<lparr>hdr_level = 1, hdr_text = [], hdr_line = 1\<rparr>]"
  by code_simp

lemma find_end_le:
  "h \<in> set hs \<Longrightarrow> hdr_level h \<le> lvl \<Longrightarrow> sorted (map hdr_line hs) \<Longrightarrow>
   find_end lvl d hs \<le> hdr_line h - 1"
proof (induction hs)
  case Nil
  then show ?case by simp
next
  case (Cons a hs)
  show ?case
  proof (cases "hdr_level a \<le> lvl")
    case True
    have "hdr_line a \<le> hdr_line h" using Cons.prems by auto
    with True show ?thesis by simp
  next
    case False
    with Cons.prems have "h \<in> set hs" by auto
    with Cons False show ?thesis by simp
  qed
qed

lemma doc_fenced_comment_eval:
  "map (\<lambda>b. (cb_type b, cb_language b, cb_line b, cb_code b)) (extract_code_blocks doc_fenced_comment)
     = [(''fenced'', ''bash'', 2, ''# install\<newline>pip install x'')] \<and>
   map (\<lambda>h. (hdr_level h, hdr_text h, hdr_line h)) (extract_headers doc_fenced_comment)
     = [(1, ''T'', 1), (1, ''install'', 3)] \<and>
   map (\<lambda>s. (sec_title s, sec_start_line s, sec_end_line s)) (extract_sections doc_fenced_comment)
     = [(''T'', 1, 2), (''install'', 3, 6)]"
  by code_simp


text \<open>
  Claim C9. Header extraction looks at each line on its own, fenced code blocks
  included: for every Markdown input, every line that matches the header pattern is
  reported as a header with its line number, level and text; a section starts at that
  line, and every section that starts before it with a level not smaller than the
  header's ends before it. In the document \<open>doc_fenced_comment\<close> the comment on line 3
  is inside the fenced block that starts on line 2; it is reported as a header, and the
  section of the title ends on line 2.
\<close>

theorem headers_ignore_fences:
  "let ls = split_nl content; hs = extract_headers content; ss = extract_sections content in
     (\<forall>i<length ls. atx_line (ls ! i) \<longrightarrow>
        (\<exists>h \<in> set hs. hdr_line h = i + 1 \<and>
           hdr_level h = length (takeWhile (\<lambda>c. c = CHR ''#'') (ls ! i)) \<and>
           hdr_text h = strip (drop (hdr_level h) (ls ! i))) \<and>
        (\<exists>s \<in> set ss. sec_start_line s = i + 1 \<and>
           sec_level s = length (takeWhile (\<lambda>c. c = CHR ''#'') (ls ! i))) \<and>
        (\<forall>s \<in> set ss. sec_start_line s < i + 1 \<and>
           length (takeWhile (\<lambda>c. c = CHR ''#'') (ls ! i)) \<le> sec_level s
           \<longrightarrow> sec_end_line s \<le> i)) \<and>
     map (\<lambda>b. (cb_type b, cb_language b, cb_line b, cb_code b)) (extract_code_blocks doc_fenced_comment)
       = [(''fenced'', ''bash'', 2, ''# install\<newline>pip install x'')] \<and>
     map (\<lambda>h. (hdr_level h, hdr_text h, hdr_line h)) (extract_headers doc_fenced_comment)
       = [(1, ''T'', 1), (1, ''install'', 3)] \<and>
     map (\<lambda>s. (sec_title s, sec_start_line s, sec_end_line s)) (extract_sections doc_fenced_comment)
       = [(''T'', 1, 2), (''install'', 3, 6)]"
proof -
  define ls where "ls = split_nl content"
  define hs where "hs = headers_from 0 ls"
  define ss where "ss = sections_from ls hs"
  have len: "length ss = length hs" by (simp add: ss_def sections_from_length)
  have pos: "0 < hdr_line (hs ! a)" if "a < length hs" for a
    using that headers_from_line_pos[of "hs ! a" 0 ls] by (simp add: hs_def)
  have nth: "sec_start_line (ss ! a) = hdr_line (hs ! a) \<and> sec_level (ss ! a) = hdr_level (hs ! a) \<and>
      sec_end_line (ss ! a) = find_end (hdr_level (hs ! a)) (length ls) (drop (Suc a) hs)"
    if "a < length hs" for a
    using sections_from_nth[OF that, of ls] pos[OF that] by (simp add: ss_def)
  have srt: "sorted_wrt (<) (map hdr_line hs)"
    unfolding hs_def by (rule headers_from_sorted)
  have gen: "(\<exists>h \<in> set hs. hdr_line h = i + 1 \<and>
           hdr_level h = length (takeWhile (\<lambda>c. c = CHR ''#'') (ls ! i)) \<and>
           hdr_text h = strip (drop (hdr_level h) (ls ! i))) \<and>
        (\<exists>s \<in> set ss. sec_start_line s = i + 1 \<and>
           sec_level s = length (takeWhile (\<lambda>c. c = CHR ''#'') (ls ! i))) \<and>
        (\<forall>s \<in> set ss. sec_start_line s < i + 1 \<and>
           length (takeWhile (\<lambda>c. c = CHR ''#'') (ls ! i)) \<le> sec_level s
           \<longrightarrow> sec_end_line s \<le> i)"
    if i: "i < length ls" and a: "atx_line (ls ! i)" for i
  proof -
    have "i \<in> set (filter (\<lambda>j. atx_match (ls ! j) \<noteq> None) [0..<length ls])"
      using i a atx_line_match[of "ls ! i"] by simp
    then have "Suc i \<in> set (map hdr_line hs)"
      unfolding hs_def headers_from_lines by (simp only: add_0_right set_map) (rule imageI)
    then obtain k where k: "k < length hs" and lk: "hdr_line (hs ! k) = Suc i"
      by (auto simp: in_set_conv_nth)
    have hk: "hs ! k \<in> set (headers_from 0 ls)" using k by (simp add: hs_def)
    from headers_from_mem[OF hk] lk obtain g1 g2 where
      m: "atx_match (ls ! i) = Some (g1, g2)"
      and v: "hdr_level (hs ! k) = length g1" "hdr_text (hs ! k) = strip g2"
      by auto
    note ms = atx_match_Some[OF m]
    have lv: "hdr_level (hs ! k) = length (takeWhile (\<lambda>c. c = CHR ''#'') (ls ! i))"
      using v(1) ms(1) by simp
    have p1: "\<exists>h \<in> set hs. hdr_line h = i + 1 \<and>
           hdr_level h = length (takeWhile (\<lambda>c. c = CHR ''#'') (ls ! i)) \<and>
           hdr_text h = strip (drop (hdr_level h) (ls ! i))"
      by (rule bexI[of _ "hs ! k"]) (use k lk lv v ms in simp_all)
    have p2: "\<exists>s \<in> set ss. sec_start_line s = i + 1 \<and>
           sec_level s = length (takeWhile (\<lambda>c. c = CHR ''#'') (ls ! i))"
      by (rule bexI[of _ "ss ! k"]) (use k lk lv nth[OF k] len in simp_all)
    have p3: "sec_end_line s \<le> i"
      if s: "s \<in> set ss" and st: "sec_start_line s < i + 1"
        and lv2: "length (takeWhile (\<lambda>c. c = CHR ''#'') (ls ! i)) \<le> sec_level s" for s
    proof -
      from s obtain a where a: "a < length hs" and sa: "s = ss ! a"
        using len by (auto simp: in_set_conv_nth)
      have la: "hdr_line (hs ! a) < hdr_line (hs ! k)"
        using st nth[OF a] lk by (simp add: sa)
      have ak: "a < k"
      proof (rule ccontr)
        assume "\<not> a < k"
        then have "k = a \<or> k < a" by auto
        then show False
        proof
          assume "k = a" with la show False by simp
        next
          assume "k < a"
          then have "hdr_line (hs ! k) < hdr_line (hs ! a)"
            using srt a by (simp add: sorted_wrt_iff_nth_less)
          with la show False by simp
        qed
      qed
      have mem: "hs ! k \<in> set (drop (Suc a) hs)"
      proof -
        have "drop (Suc a) hs ! (k - Suc a) = hs ! k" using ak k by simp
        moreover have "k - Suc a < length (drop (Suc a) hs)" using ak k by simp
        ultimately show ?thesis by (metis nth_mem)
      qed
      have s2: "sorted (map hdr_line (drop (Suc a) hs))"
      proof -
        have "sorted_wrt (<) (drop (Suc a) (map hdr_line hs))"
          using srt by (rule sorted_wrt_drop)
        then show ?thesis
          by (simp add: drop_map strict_sorted_imp_sorted)
      qed
      have "hdr_level (hs ! k) \<le> hdr_level (hs ! a)"
        using lv2 lv nth[OF a] by (simp add: sa)
      from find_end_le[OF mem this s2, of "length ls"]
      show ?thesis using nth[OF a] lk by (simp add: sa)
    qed
    from p1 p2 p3 show ?thesis by blast
  qed
  from gen doc_fenced_comment_eval show ?thesis
    unfolding Let_def extract_sections_def extract_headers_def ls_def[symmetric]
      hs_def[symmetric] ss_def[symmetric]
    by blast
qed

theorem headers_ignore_fences_witness:
  "2 < length (split_nl doc_fenced_comment) \<and> atx_line (split_nl doc_fenced_comment ! 2) \<and>
   (\<exists>h \<in> set (extract_headers doc_fenced_comment). hdr_line h = 3 \<and> hdr_level h = 1 \<and>
      hdr_text h = ''install'') \<and>
   (\<exists>s \<in> set (extract_sections doc_fenced_comment). sec_start_line s = 3 \<and> sec_level s = 1)"
proof -
  have i: "2 < length (split_nl doc_fenced_comment)" by code_simp
  have a: "atx_line (split_nl doc_fenced_comment ! 2)" by code_simp
  have l: "split_nl doc_fenced_comment ! 2 = ''# install''" by code_simp
  have t: "strip (drop (Suc 0) ''# install'') = ''install''" by code_simp
  from headers_ignore_fences[of doc_fenced_comment, unfolded Let_def, THEN conjunct1,
      rule_format, OF i a]
  show ?thesis using i a t by (auto simp: l)
qed

subsection \<open>Code blocks\<close>

lemma find_fence_split: "find_fence b = Some (g, r) \<Longrightarrow> b = g @ ''```'' @ r"
proof (induction b arbitrary: g)
  case Nil
  then show ?case by simp
next
  case (Cons a b)
  show ?case
  proof (cases "starts_with ''```'' (a # b)")
    case True
    with Cons.prems have "g = []" "r = drop 3 (a # b)" by auto
    moreover from True have "a # b = ''```'' @ drop 3 (a # b)"
      unfolding starts_with_def by (metis append_take_drop_id length_Cons list.size(3) numeral_3_eq_3)
    ultimately show ?thesis by simp
  next
    case False
    with Cons.prems obtain g' where "find_fence b = Some (g', r)" "g = a # g'"
      by auto
    with Cons.IH show ?thesis by simp
  qed
qed

lemma fence_match_split:
  assumes "fence_match s = Some (g1, g2, r)"
  shows "\<exists>w. s = ''```'' @ w @ CHR 0x0A # g2 @ ''```'' @ r \<and> (\<forall>c \<in> set w. is_word c) \<and>
             g1 = (if w = [] then None else Some w) \<and> find_fence (g2 @ ''```'' @ r) = Some (g2, r)"
proof -
  define t where "t = drop 3 s"
  define w where "w = takeWhile is_word t"
  from assms have st: "starts_with ''```'' s"
    by (auto simp: fence_match_def split: if_splits)
  from assms st obtain body where d: "dropWhile is_word t = CHR 0x0A # body"
    and f: "find_fence body = Some (g2, r)" and g: "g1 = (if w = [] then None else Some w)"
    unfolding fence_match_def Let_def t_def[symmetric] w_def[symmetric]
    by (auto split: if_splits list.splits option.splits)
  have s: "s = ''```'' @ t"
    using st unfolding starts_with_def t_def
    by (metis append_take_drop_id length_Cons list.size(3) numeral_3_eq_3)
  have t: "t = w @ CHR 0x0A # body"
    using takeWhile_dropWhile_id[of is_word t] d by (simp add: w_def)
  have b: "body = g2 @ ''```'' @ r" by (rule find_fence_split[OF f])
  have "\<forall>c \<in> set w. is_word c" unfolding w_def by (auto dest: set_takeWhileD)
  with s t b g f show ?thesis by auto
qed

lemma count_nl_append: "count_nl (a @ b) = count_nl a + count_nl b"
  by (simp add: count_nl_def)

lemma fence_match_nl:
  assumes "fence_match s = Some (g1, g2, r)"
  shows "1 \<le> count_nl (take (length s - length r) s)"
proof -
  from fence_match_split[OF assms] obtain w where
    s: "s = (''```'' @ w @ CHR 0x0A # g2 @ ''```'') @ r" by auto
  define m where "m = ''```'' @ w @ CHR 0x0A # g2 @ ''```''"
  have "take (length (m @ r) - length r) (m @ r) = m" by simp
  then have "take (length s - length r) s = m" using s by (simp only: m_def)
  then show ?thesis by (simp add: count_nl_def m_def)
qed

lemma fenced_from_props:
  "b \<in> set (fenced_from n s) \<Longrightarrow> cb_type b = ''fenced'' \<and> n + 1 \<le> cb_line b"
proof (induction n s rule: fenced_from.induct)
  case (1 n)
  then show ?case by simp
next
  case (2 n c cs)
  show ?case
  proof (cases "fence_match (c # cs)")
    case None
    with 2 show ?thesis by (auto split: if_splits)
  next
    case (Some x)
    obtain g1 g2 r where x: "x = (g1, g2, r)" by (cases x) auto
    from "2.prems" Some x have
      "b = \<lparr>cb_language = (case g1 of None \<Rightarrow> ''text'' | Some w \<Rightarrow> w),
           cb_code = strip g2, cb_line = n + 1, cb_type = ''fenced''\<rparr>
       \<or> b \<in> set (fenced_from (n + count_nl (take (length (c # cs) - length r) (c # cs))) r)"
      by simp
    then show ?thesis
    proof
      assume "b = \<lparr>cb_language = (case g1 of None \<Rightarrow> ''text'' | Some w \<Rightarrow> w),
           cb_code = strip g2, cb_line = n + 1, cb_type = ''fenced''\<rparr>"
      then show ?thesis by simp
    next
      assume "b \<in> set (fenced_from (n + count_nl (take (length (c # cs) - length r) (c # cs))) r)"
      from "2.IH"(2)[OF Some x[symmetric] refl this]
      show ?thesis by simp
    qed
  qed
qed

lemma fenced_from_sorted: "sorted_wrt (<) (map cb_line (fenced_from n s))"
proof (induction n s rule: fenced_from.induct)
  case (1 n)
  then show ?case by simp
next
  case (2 n c cs)
  show ?case
  proof (cases "fence_match (c # cs)")
    case None
    with 2 show ?thesis by (auto split: if_splits)
  next
    case (Some x)
    obtain g1 g2 r where x: "x = (g1, g2, r)" by (cases x) auto
    have nl: "1 \<le> count_nl (take (length (c # cs) - length r) (c # cs))"
      using fence_match_nl Some x by blast
    have "n + 1 < cb_line b"
      if "b \<in> set (fenced_from (n + count_nl (take (length (c # cs) - length r) (c # cs))) r)" for b
      using fenced_from_props[OF that] nl by simp
    moreover have "sorted_wrt (<) (map cb_line
        (fenced_from (n + count_nl (take (length (c # cs) - length r) (c # cs))) r))"
      by (rule "2.IH"(2)[OF Some x[symmetric] refl])
    ultimately show ?thesis using Some x by auto
  qed
qed

lemma indented_from_type:
  "b \<in> set (indented_from i inb cur st ls) \<Longrightarrow> cb_type b = ''indented''"
  by (induction ls arbitrary: i inb cur st) (auto simp: indented_block_def split: if_splits)

lemma indented_from_sorted:
  "(inb \<longrightarrow> st \<le> i) \<Longrightarrow>
   sorted_wrt (<) (map cb_line (indented_from i inb cur st ls)) \<and>
   (\<forall>b \<in> set (indented_from i inb cur st ls). (if inb then st else i + 1) \<le> cb_line b)"
proof (induction ls arbitrary: i inb cur st)
  case Nil
  then show ?case by (simp add: indented_block_def)
next
  case (Cons l ls)
  show ?case
  proof (cases "starts_with ''    '' l \<or> starts_with [CHR 0x09] l")
    case True
    have "True \<longrightarrow> (if \<not> inb then i + 1 else st) \<le> i + 1" using Cons.prems by auto
    from Cons.IH[OF this] True show ?thesis by (auto split: if_splits)
  next
    case False
    have "False \<longrightarrow> st \<le> i + 1" by simp
    note ih = Cons.IH[OF this]
    show ?thesis
    proof (cases "inb \<and> cur \<noteq> []")
      case True
      with False ih[of "[]"] Cons.prems show ?thesis
        by (fastforce simp: indented_block_def)
    next
      case False 
      with \<open>\<not> (starts_with ''    '' l \<or> starts_with [CHR 0x09] l)\<close> ih[of cur] Cons.prems
      show ?thesis by fastforce
    qed
  qed
qed

lemma doc_indented_first_eval:
  "map (\<lambda>b. (cb_type b, cb_line b, cb_code b)) (extract_code_blocks ''    x = 1\<newline>\<newline>```\<newline>y\<newline>```'')
     = [(''fenced'', 3, ''y''), (''indented'', 1, ''x = 1'')]"
  by code_simp

text \<open>
  Claim C10. In the sequence returned by \<open>extract_code_blocks\<close> every block is fenced or
  indented, no indented block comes before a fenced one, the fenced blocks are in
  document order and so are the indented blocks. Hence the sequence is not ordered by
  line number whenever an indented block lies on an earlier line than some fenced block,
  as for an indented block on line 1 followed by a fenced block on line 3.
\<close>

theorem fenced_before_indented:
  "let bs = extract_code_blocks content in
     (\<forall>b \<in> set bs. cb_type b = ''fenced'' \<or> cb_type b = ''indented'') \<and>
     (\<forall>i j. i < j \<and> j < length bs \<and> cb_type (bs ! i) = ''indented''
        \<longrightarrow> cb_type (bs ! j) = ''indented'') \<and>
     sorted_wrt (<) (map cb_line (filter (\<lambda>b. cb_type b = ''fenced'') bs)) \<and>
     sorted_wrt (<) (map cb_line (filter (\<lambda>b. cb_type b = ''indented'') bs)) \<and>
     ((\<exists>b \<in> set bs. \<exists>f \<in> set bs. cb_type b = ''indented'' \<and> cb_type f = ''fenced'' \<and>
          cb_line b < cb_line f)
        \<longrightarrow> \<not> sorted (map cb_line bs)) \<and>
     map (\<lambda>b. (cb_type b, cb_line b, cb_code b))
         (extract_code_blocks ''    x = 1\<newline>\<newline>```\<newline>y\<newline>```'')
       = [(''fenced'', 3, ''y''), (''indented'', 1, ''x = 1'')]"
proof -
  define F where "F = fenced_from 0 content"
  define I where "I = indented_from 0 False [] 0 (split_nl content)"
  have bs: "extract_code_blocks content = F @ I"
    by (simp add: extract_code_blocks_def F_def I_def)
  have tF: "cb_type b = ''fenced''" if "b \<in> set F" for b
    using fenced_from_props[of b 0 content] that by (simp add: F_def)
  have tI: "cb_type b = ''indented''" if "b \<in> set I" for b
    using indented_from_type that unfolding I_def by blast
  have ne: "''fenced'' \<noteq> ''indented''" by simp
  have fF: "filter (\<lambda>b. cb_type b = ''fenced'') (F @ I) = F"
  proof -
    have "filter (\<lambda>b. cb_type b = ''fenced'') F = F" using tF by (simp add: filter_id_conv)
    moreover have "filter (\<lambda>b. cb_type b = ''fenced'') I = []"
      using tI ne by (auto simp: filter_empty_conv)
    ultimately show ?thesis by simp
  qed
  have fI: "filter (\<lambda>b. cb_type b = ''indented'') (F @ I) = I"
  proof -
    have "filter (\<lambda>b. cb_type b = ''indented'') I = I" using tI by (simp add: filter_id_conv)
    moreover have "filter (\<lambda>b. cb_type b = ''indented'') F = []"
      using tF ne by (auto simp: filter_empty_conv)
    ultimately show ?thesis by simp
  qed
  have c1: "\<forall>b \<in> set (F @ I). cb_type b = ''fenced'' \<or> cb_type b = ''indented''"
    using tF tI by auto
  have c2: "cb_type ((F @ I) ! j) = ''indented''"
    if "i < j" "j < length (F @ I)" "cb_type ((F @ I) ! i) = ''indented''" for i j
  proof -
    have "\<not> i < length F"
    proof
      assume "i < length F"
      then have "cb_type ((F @ I) ! i) = ''fenced''" using tF by (simp add: nth_append)
      with that(3) ne show False by simp
    qed
    then have "\<not> j < length F" using that(1) by simp
    then have "(F @ I) ! j = I ! (j - length F)" "j - length F < length I"
      using that(2) by (auto simp: nth_append)
    then show ?thesis using tI by (metis nth_mem)
  qed
  have c3: "sorted_wrt (<) (map cb_line F)"
    unfolding F_def by (rule fenced_from_sorted)
  have c4: "sorted_wrt (<) (map cb_line I)"
    unfolding I_def using indented_from_sorted[of False 0 0 "[]" "split_nl content"] by simp
  have c5: "\<not> sorted (map cb_line (F @ I))"
    if "b \<in> set (F @ I)" "f \<in> set (F @ I)" "cb_type b = ''indented''" "cb_type f = ''fenced''"
       "cb_line b < cb_line f" for b f
  proof
    assume s: "sorted (map cb_line (F @ I))"
    have "b \<in> set I" using that(1,3) tF ne by auto
    moreover have "f \<in> set F" using that(2,4) tI ne by auto
    ultimately have "cb_line f \<le> cb_line b"
      using s by (auto simp: sorted_append)
    with that(5) show False by simp
  qed
  show ?thesis
    unfolding Let_def bs fF fI
    using c1 c2 c3 c4 c5 doc_indented_first_eval by blast
qed

theorem fenced_before_indented_witness:
  "\<not> sorted (map cb_line (extract_code_blocks ''    x = 1\<newline>\<newline>```\<newline>y\<newline>```'')) \<and>
   map cb_type (extract_code_blocks ''    x = 1\<newline>\<newline>```\<newline>y\<newline>```'') = [''fenced'', ''indented'']"
proof -
  have e: "extract_code_blocks ''    x = 1\<newline>\<newline>```\<newline>y\<newline>```'' =
     [\<lparr>cb_language = ''text'', cb_code = ''y'', cb_line = 3, cb_type = ''fenced''\<rparr>,
      \<lparr>cb_language = ''text'', cb_code = ''x = 1'', cb_line = 1, cb_type = ''indented''\<rparr>]"
    by code_simp
  have h: "\<exists>b \<in> set (extract_code_blocks ''    x = 1\<newline>\<newline>```\<newline>y\<newline>```'').
           \<exists>f \<in> set (extract_code_blocks ''    x = 1\<newline>\<newline>```\<newline>y\<newline>```'').
             cb_type b = ''indented'' \<and> cb_type f = ''fenced'' \<and> cb_line b < cb_line f"
    by (simp add: e)
  from fenced_before_indented[of "''    x = 1\<newline>\<newline>```\<newline>y\<newline>```''", unfolded Let_def] h
  have "\<not> sorted (map cb_line (extract_code_blocks ''    x = 1\<newline>\<newline>```\<newline>y\<newline>```''))"
    by blast
  then show ?thesis by (simp add: e)
qed

lemma find_fence_None_iff: "find_fence s = None \<longleftrightarrow> (\<forall>a b. s \<noteq> a @ ''```'' @ b)"
proof
  assume n: "find_fence s = None"
  have "find_fence (a @ ''```'' @ b) \<noteq> None" for a b
  proof (induction a)
    case Nil
    show ?case by (simp add: starts_with_def)
  next
    case (Cons x a)
    then show ?case by (auto split: if_splits)
  qed
  with n show "\<forall>a b. s \<noteq> a @ ''```'' @ b" by metis
next
  assume a: "\<forall>a b. s \<noteq> a @ ''```'' @ b"
  show "find_fence s = None"
  proof (cases "find_fence s")
    case None
    then show ?thesis .
  next
    case (Some x)
    obtain g r where "x = (g, r)" by (cases x) auto
    with Some find_fence_split[of s g r] a show ?thesis by blast
  qed
qed

lemma strip_infix: "\<exists>p q. s = p @ strip s @ q"
proof -
  define d where "d = dropWhile is_space s"
  have 1: "s = takeWhile is_space s @ d" by (simp add: d_def)
  have "rev d = takeWhile is_space (rev d) @ dropWhile is_space (rev d)" by simp
  then have "rev (rev d) = rev (takeWhile is_space (rev d) @ dropWhile is_space (rev d))"
    by (rule arg_cong)
  then have 2: "d = rev (dropWhile is_space (rev d)) @ rev (takeWhile is_space (rev d))"
    by (simp only: rev_rev_ident rev_append)
  have "s = takeWhile is_space s @ strip s @ rev (takeWhile is_space (rev d))"
    unfolding strip_def d_def[symmetric] using 1 2 by simp
  then show ?thesis by blast
qed

lemma find_fence_strip: "find_fence s = None \<Longrightarrow> find_fence (strip s) = None"
proof -
  assume n: "find_fence s = None"
  obtain p q where s: "s = p @ strip s @ q" using strip_infix by blast
  show ?thesis
    unfolding find_fence_None_iff
  proof (intro allI notI)
    fix a b assume "strip s = a @ ''```'' @ b"
    then have "s = (p @ a) @ ''```'' @ (b @ q)" using s by (metis append.assoc)
    with n show False unfolding find_fence_None_iff by blast
  qed
qed

lemma starts_with_append: "starts_with p s \<Longrightarrow> starts_with p (s @ t)"
proof -
  assume a: "starts_with p s"
  then have "length (take (length p) s) = length p" by (simp only: starts_with_def)
  then have "length p \<le> length s" by simp
  then show ?thesis using a by (simp add: starts_with_def)
qed

lemma find_fence_group_None: "find_fence b = Some (g, r) \<Longrightarrow> find_fence g = None"
proof (induction b arbitrary: g)
  case Nil
  then show ?case by simp
next
  case (Cons a b)
  show ?case
  proof (cases "starts_with ''```'' (a # b)")
    case True
    with Cons.prems show ?thesis by auto
  next
    case False
    with Cons.prems obtain g' where f: "find_fence b = Some (g', r)" and g: "g = a # g'"
      by auto
    have b: "b = g' @ ''```'' @ r" by (rule find_fence_split[OF f])
    have "\<not> starts_with ''```'' (a # g')"
    proof
      assume "starts_with ''```'' (a # g')"
      then have "starts_with ''```'' ((a # g') @ ''```'' @ r)" by (rule starts_with_append)
      with False show False unfolding b by simp
    qed
    with Cons.IH[OF f] g show ?thesis by simp
  qed
qed

lemma find_fence_close:
  "find_fence c = None \<Longrightarrow> find_fence (c @ CHR 0x0A # ''```'') = Some (c @ [CHR 0x0A], [])"
proof (induction c)
  case Nil
  show ?case by (simp add: starts_with_def)
next
  case (Cons x c)
  from Cons.prems have n: "\<not> starts_with ''```'' (x # c)" and f: "find_fence c = None"
    by (auto split: if_splits)
  have "\<not> starts_with ''```'' (x # c @ CHR 0x0A # ''```'')"
  proof (cases c)
    case Nil
    then show ?thesis by (simp add: starts_with_def)
  next
    case (Cons y c')
    note c = this
    show ?thesis
    proof (cases c')
      case Nil
      with c show ?thesis by (simp add: starts_with_def)
    next
      case (Cons z c'')
      with c n show ?thesis by (simp add: starts_with_def)
    qed
  qed
  with Cons.IH[OF f] show ?case by simp
qed

lemma strip_ends:
  "strip s \<noteq> [] \<Longrightarrow> \<not> is_space (hd (strip s)) \<and> \<not> is_space (last (strip s))"
proof -
  assume ne: "strip s \<noteq> []"
  define d where "d = dropWhile is_space s"
  define e where "e = dropWhile is_space (rev d)"
  have st: "strip s = rev e" by (simp add: strip_def d_def e_def)
  have e: "e \<noteq> []" using ne st by simp
  have l: "\<not> is_space (hd e)" unfolding e_def using e hd_dropWhile[of is_space "rev d"]
    by (simp add: e_def)
  have d: "d \<noteq> []" using e unfolding e_def by auto
  have hd: "\<not> is_space (hd d)" unfolding d_def using d hd_dropWhile[of is_space s]
    by (simp add: d_def)
  have "rev d = takeWhile is_space (rev d) @ e" by (simp add: e_def)
  then have "rev (rev d) = rev (takeWhile is_space (rev d) @ e)" by (rule arg_cong)
  then have "d = rev e @ rev (takeWhile is_space (rev d))"
    by (simp only: rev_rev_ident rev_append)
  then have "hd d = hd (rev e)" using e by (metis hd_append2 rev_is_Nil_conv)
  with hd l e show ?thesis unfolding st by (simp add: last_rev)
qed

lemma strip_code_nl: "strip (strip s @ [CHR 0x0A]) = strip s"
proof (cases "strip s = []")
  case True
  have "strip ([] @ [CHR 0x0A]) = []" by (simp add: strip_def is_space_def)
  with True show ?thesis by simp
next
  case False
  define c where "c = strip s"
  from strip_ends[OF False] have h: "\<not> is_space (hd c)" and l: "\<not> is_space (last c)"
    by (simp_all add: c_def)
  have ne: "c \<noteq> []" using False by (simp add: c_def)
  have 1: "dropWhile is_space (c @ [CHR 0x0A]) = c @ [CHR 0x0A]"
    using ne h by (cases c) auto
  have sp: "is_space (CHR 0x0A)" by (simp add: is_space_def)
  have 2: "dropWhile is_space (rev (c @ [CHR 0x0A])) = rev c"
    using ne l sp by (cases "rev c") (auto simp: hd_rev)
  have "strip (c @ [CHR 0x0A]) = c"
    by (simp only: strip_def[of "c @ [CHR 0x0A]"] 1 2 rev_rev_ident)
  then show ?thesis by (simp only: c_def)
qed

lemma fence_match_wrapped:
  assumes w: "\<forall>c \<in> set w. is_word c" and c: "find_fence c = None"
  shows "fence_match (''```'' @ w @ CHR 0x0A # c @ CHR 0x0A # ''```'')
           = Some (if w = [] then None else Some w, c @ [CHR 0x0A], [])"
proof -
  have nw: "\<not> is_word (CHR 0x0A)" by (simp add: is_word_def)
  have t: "takeWhile is_word (w @ CHR 0x0A # c @ CHR 0x0A # ''```'') = w"
    using w nw by (simp add: takeWhile_append2)
  have d: "dropWhile is_word (w @ CHR 0x0A # c @ CHR 0x0A # ''```'') = CHR 0x0A # c @ CHR 0x0A # ''```''"
    using w nw by (simp add: dropWhile_append2)
  have s: "starts_with ''```'' (''```'' @ w @ CHR 0x0A # c @ CHR 0x0A # ''```'')"
    by (simp add: starts_with_def)
  have dr: "drop 3 (''```'' @ w @ CHR 0x0A # c @ CHR 0x0A # ''```'') = w @ CHR 0x0A # c @ CHR 0x0A # ''```''"
    by simp
  show ?thesis
    unfolding fence_match_def using s find_fence_close[OF c]
    by (simp only: dr t d Let_def if_True list.case option.case prod.case simp_thms)
qed

lemma fenced_from_block:
  "b \<in> set (fenced_from n s) \<Longrightarrow>
     cb_language b \<noteq> [] \<and> (\<forall>c \<in> set (cb_language b). is_word c) \<and>
     (\<exists>g. cb_code b = strip g \<and> find_fence g = None)"
proof (induction n s rule: fenced_from.induct)
  case (1 n)
  then show ?case by simp
next
  case (2 n c cs)
  show ?case
  proof (cases "fence_match (c # cs)")
    case None
    with 2 show ?thesis by (auto split: if_splits)
  next
    case (Some x)
    obtain g1 g2 r where x: "x = (g1, g2, r)" by (cases x) auto
    from "2.prems" Some x have
      "b = \<lparr>cb_language = (case g1 of None \<Rightarrow> ''text'' | Some w \<Rightarrow> w),
           cb_code = strip g2, cb_line = n + 1, cb_type = ''fenced''\<rparr>
       \<or> b \<in> set (fenced_from (n + count_nl (take (length (c # cs) - length r) (c # cs))) r)"
      by simp
    then show ?thesis
    proof
      assume b: "b = \<lparr>cb_language = (case g1 of None \<Rightarrow> ''text'' | Some w \<Rightarrow> w),
           cb_code = strip g2, cb_line = n + 1, cb_type = ''fenced''\<rparr>"
      from Some x have m: "fence_match (c # cs) = Some (g1, g2, r)" by simp
      from fence_match_split[OF m] obtain w where
        w: "\<forall>c \<in> set w. is_word c" and g1: "g1 = (if w = [] then None else Some w)"
        and f: "find_fence (g2 @ ''```'' @ r) = Some (g2, r)" by blast
      have t: "\<forall>c \<in> set ''text''. is_word c" by (simp add: is_word_def)
      have "find_fence g2 = None" by (rule find_fence_group_None[OF f])
      moreover have "cb_language b \<noteq> [] \<and> (\<forall>c \<in> set (cb_language b). is_word c)"
        using w g1 t by (cases "w = []") (simp_all add: b)
      ultimately show ?thesis using b by auto
    next
      assume "b \<in> set (fenced_from (n + count_nl (take (length (c # cs) - length r) (c # cs))) r)"
      from "2.IH"(2)[OF Some x[symmetric] refl this]
      show ?thesis .
    qed
  qed
qed

lemma fenced_from_wrap:
  assumes w: "\<forall>c \<in> set w. is_word c" and c: "find_fence g = None"
  shows "fenced_from n (fence_wrap w (strip g))
     = [\<lparr>cb_language = (if w = [] then ''text'' else w), cb_code = strip g, cb_line = n + 1,
         cb_type = ''fenced''\<rparr>]"
proof -
  define rest where "rest = ''``'' @ w @ CHR 0x0A # strip g @ CHR 0x0A # ''```''"
  have eq: "fence_wrap w (strip g) = CHR 0x60 # rest"
    by (simp add: fence_wrap_def rest_def)
  have m: "fence_match (CHR 0x60 # rest)
      = Some (if w = [] then None else Some w, strip g @ [CHR 0x0A], [])"
    using fence_match_wrapped[OF w find_fence_strip[OF c]] by (simp add: rest_def)
  show ?thesis
    unfolding eq by (simp add: m strip_code_nl)
qed

lemma extract_code_blocks_fenced:
  "filter (\<lambda>b. cb_type b = ''fenced'') (extract_code_blocks content) = fenced_from 0 content"
proof -
  have ne: "''fenced'' \<noteq> ''indented''" by simp
  have "filter (\<lambda>b. cb_type b = ''fenced'') (fenced_from 0 content) = fenced_from 0 content"
    using fenced_from_props[of _ 0 content] by (simp add: filter_id_conv)
  moreover have "filter (\<lambda>b. cb_type b = ''fenced'')
      (indented_from 0 False [] 0 (split_nl content)) = []"
    using indented_from_type[of _ 0 False "[]" 0 "split_nl content"] ne
    by (auto simp: filter_empty_conv)
  ultimately show ?thesis by (simp add: extract_code_blocks_def)
qed

text \<open>
  Claim C8. For every fenced block extracted from a document, parsing the text made of
  the opening fence with the block's language, the block's code and the closing fence
  gives exactly one fenced block, with the language and the code of the original (its
  line is 1). When the language is the default \<open>text\<close>, the same holds for the opening
  fence without a tag.
\<close>

theorem fenced_reparse:
  "\<forall>b \<in> set (extract_code_blocks content). cb_type b = ''fenced'' \<longrightarrow>
     filter (\<lambda>x. cb_type x = ''fenced'')
        (extract_code_blocks (fence_wrap (cb_language b) (cb_code b))) = [b\<lparr>cb_line := 1\<rparr>] \<and>
     (cb_language b = ''text'' \<longrightarrow>
        filter (\<lambda>x. cb_type x = ''fenced'')
          (extract_code_blocks (fence_wrap [] (cb_code b))) = [b\<lparr>cb_line := 1\<rparr>])"
proof (intro ballI impI)
  fix b assume "b \<in> set (extract_code_blocks content)" and t: "cb_type b = ''fenced''"
  then have "b \<in> set (filter (\<lambda>b. cb_type b = ''fenced'') (extract_code_blocks content))"
    by simp
  then have m: "b \<in> set (fenced_from 0 content)"
    by (simp only: extract_code_blocks_fenced)
  from fenced_from_block[OF m] obtain g where
    l: "cb_language b \<noteq> []" "\<forall>c \<in> set (cb_language b). is_word c"
    and c: "cb_code b = strip g" and f: "find_fence g = None"
    by blast
  have 1: "fenced_from 0 (fence_wrap (cb_language b) (cb_code b)) = [b\<lparr>cb_line := 1\<rparr>]"
    unfolding c using fenced_from_wrap[OF l(2) f, of 0] l(1) t c by simp
  have e: "\<forall>c \<in> set ([] :: string). is_word c" by simp
  have 2: "fenced_from 0 (fence_wrap [] (cb_code b)) = [b\<lparr>cb_line := 1\<rparr>]"
    if "cb_language b = ''text''"
    unfolding c using fenced_from_wrap[OF e f, of 0] that t c by simp
  show "filter (\<lambda>x. cb_type x = ''fenced'')
        (extract_code_blocks (fence_wrap (cb_language b) (cb_code b))) = [b\<lparr>cb_line := 1\<rparr>] \<and>
     (cb_language b = ''text'' \<longrightarrow>
        filter (\<lambda>x. cb_type x = ''fenced'')
          (extract_code_blocks (fence_wrap [] (cb_code b))) = [b\<lparr>cb_line := 1\<rparr>])"
    unfolding extract_code_blocks_fenced using 1 2 by simp
qed

theorem fenced_reparse_witness:
  "\<lparr>cb_language = ''python'', cb_code = ''print(1)\<newline>x``'', cb_line = 2, cb_type = ''fenced''\<rparr>
      \<in> set (extract_code_blocks ''intro\<newline>```python\<newline>    print(1)\<newline>x``\<newline>\<newline>```\<newline>'') \<and>
   filter (\<lambda>x. cb_type x = ''fenced'')
     (extract_code_blocks ''```python\<newline>print(1)\<newline>x``\<newline>```'')
     = [\<lparr>cb_language = ''python'', cb_code = ''print(1)\<newline>x``'', cb_line = 1, cb_type = ''fenced''\<rparr>]"
proof -
  have m: "\<lparr>cb_language = ''python'', cb_code = ''print(1)\<newline>x``'', cb_line = 2, cb_type = ''fenced''\<rparr>
      \<in> set (extract_code_blocks ''intro\<newline>```python\<newline>    print(1)\<newline>x``\<newline>\<newline>```\<newline>'')"
    by code_simp
  from fenced_reparse[of "''intro\<newline>```python\<newline>    print(1)\<newline>x``\<newline>\<newline>```\<newline>''", rule_format, OF m]
  show ?thesis using m by (simp add: fence_wrap_def)
qed

subsection \<open>Content type\<close>

lemma doc_e2e_parts:
  "extract_metadata doc_e2e = [] \<and>
   map (\<lambda>h. (hdr_level h, hdr_text h, hdr_line h)) (extract_headers doc_e2e)
     = [(1, ''Intro'', 1), (2, ''Exercise'', 5), (2, ''Solution'', 9)] \<and>
   map (\<lambda>s. (sec_level s, sec_title s, sec_start_line s, sec_end_line s)) (extract_sections doc_e2e)
     = [(1, ''Intro'', 1, 11), (2, ''Exercise'', 5, 8), (2, ''Solution'', 9, 11)] \<and>
   extract_code_blocks doc_e2e = [] \<and>
   determine_content_type (extract_metadata doc_e2e) (extract_headers doc_e2e)
     (extract_code_blocks doc_e2e) = ''tutorial_with_exercises''"
  by code_simp

lemma doc_e2e_counts:
  "length (extract_headers doc_e2e) = 3" "length (extract_sections doc_e2e) = 3"
  by code_simp+

lemma doc_e2e_type:
  "determine_content_type (extract_metadata doc_e2e) (extract_headers doc_e2e)
     (extract_code_blocks doc_e2e) = ''tutorial_with_exercises''"
  by code_simp

text \<open>
  Claim C2. For the Markdown input of the end-to-end scenario the analysis has exactly
  3 headers and exactly 3 sections, and its content type is \<open>tutorial_with_exercises\<close>.
  The content type of an analysis is \<open>determine_content_type\<close> of its metadata, headers
  and code blocks, which follows the priority order: a type declared in the metadata is
  returned as it is; else an exercise or challenge keyword together with a solution or
  answer keyword in the lower-cased header texts gives \<open>tutorial_with_exercises\<close>; else
  an exercise or challenge keyword alone gives \<open>tutorial\<close>; else any code block gives
  \<open>code_example\<close>; else an introduction keyword in a header gives \<open>introduction\<close>; else
  \<open>documentation\<close>.
\<close>

theorem content_type_priority:
  "an_stat_headers (analyze_content_structure doc_e2e file_path) = 3 \<and>
   length (an_headers (analyze_content_structure doc_e2e file_path)) = 3 \<and>
   an_stat_sections (analyze_content_structure doc_e2e file_path) = 3 \<and>
   length (an_sections (analyze_content_structure doc_e2e file_path)) = 3 \<and>
   an_content_type (analyze_content_structure doc_e2e file_path) = ''tutorial_with_exercises'' \<and>
   an_content_type (analyze_content_structure content file_path)
     = determine_content_type (extract_metadata content) (extract_headers content)
         (extract_code_blocks content) \<and>
   (\<forall>t. map_of metadata ''type'' = Some t \<longrightarrow>
        determine_content_type metadata headers code_blocks = t) \<and>
   (map_of metadata ''type'' = None \<longrightarrow>
      (let ex = (\<exists>h \<in> set headers. contains ''exercise'' (lower (hdr_text h)) \<or>
                                    contains ''challenge'' (lower (hdr_text h)));
           sol = (\<exists>h \<in> set headers. contains ''solution'' (lower (hdr_text h)) \<or>
                                     contains ''answer'' (lower (hdr_text h)));
           intro = (\<exists>h \<in> set headers. contains ''introduction'' (lower (hdr_text h)))
       in (ex \<and> sol \<longrightarrow>
             determine_content_type metadata headers code_blocks = ''tutorial_with_exercises'') \<and>
          (ex \<and> \<not> sol \<longrightarrow>
             determine_content_type metadata headers code_blocks = ''tutorial'') \<and>
          (\<not> ex \<and> code_blocks \<noteq> [] \<longrightarrow>
             determine_content_type metadata headers code_blocks = ''code_example'') \<and>
          (\<not> ex \<and> code_blocks = [] \<and> intro \<longrightarrow>
             determine_content_type metadata headers code_blocks = ''introduction'') \<and>
          (\<not> ex \<and> code_blocks = [] \<and> \<not> intro \<longrightarrow>
             determine_content_type metadata headers code_blocks = ''documentation'')))"
proof -
  have a: "an_stat_headers (analyze_content_structure doc_e2e file_path) = 3 \<and>
   length (an_headers (analyze_content_structure doc_e2e file_path)) = 3 \<and>
   an_stat_sections (analyze_content_structure doc_e2e file_path) = 3 \<and>
   length (an_sections (analyze_content_structure doc_e2e file_path)) = 3 \<and>
   an_content_type (analyze_content_structure doc_e2e file_path) = ''tutorial_with_exercises''"
    unfolding analyze_content_structure_def Let_def
    by (simp only: md_analysis.select_convs doc_e2e_type doc_e2e_counts simp_thms)
  have b: "an_content_type (analyze_content_structure content file_path)
     = determine_content_type (extract_metadata content) (extract_headers content)
         (extract_code_blocks content)"
    by (simp add: analyze_content_structure_def Let_def)
  have c: "\<forall>t. map_of metadata ''type'' = Some t \<longrightarrow>
        determine_content_type metadata headers code_blocks = t"
    by (simp add: determine_content_type_def)
  have d: "map_of metadata ''type'' = None \<longrightarrow>
      (let ex = (\<exists>h \<in> set headers. contains ''exercise'' (lower (hdr_text h)) \<or>
                                    contains ''challenge'' (lower (hdr_text h)));
           sol = (\<exists>h \<in> set headers. contains ''solution'' (lower (hdr_text h)) \<or>
                                     contains ''answer'' (lower (hdr_text h)));
           intro = (\<exists>h \<in> set headers. contains ''introduction'' (lower (hdr_text h)))
       in (ex \<and> sol \<longrightarrow>
             determine_content_type metadata headers code_blocks = ''tutorial_with_exercises'') \<and>
          (ex \<and> \<not> sol \<longrightarrow>
             determine_content_type metadata headers code_blocks = ''tutorial'') \<and>
          (\<not> ex \<and> code_blocks \<noteq> [] \<longrightarrow>
             determine_content_type metadata headers code_blocks = ''code_example'') \<and>
          (\<not> ex \<and> code_blocks = [] \<and> intro \<longrightarrow>
             determine_content_type metadata headers code_blocks = ''introduction'') \<and>
          (\<not> ex \<and> code_blocks = [] \<and> \<not> intro \<longrightarrow>
             determine_content_type metadata headers code_blocks = ''documentation''))"
  proof (rule impI)
    assume n: "map_of metadata ''type'' = None"
    show "(let ex = (\<exists>h \<in> set headers. contains ''exercise'' (lower (hdr_text h)) \<or>
                                    contains ''challenge'' (lower (hdr_text h)));
           sol = (\<exists>h \<in> set headers. contains ''solution'' (lower (hdr_text h)) \<or>
                                     contains ''answer'' (lower (hdr_text h)));
           intro = (\<exists>h \<in> set headers. contains ''introduction'' (lower (hdr_text h)))
       in (ex \<and> sol \<longrightarrow>
             determine_content_type metadata headers code_blocks = ''tutorial_with_exercises'') \<and>
          (ex \<and> \<not> sol \<longrightarrow>
             determine_content_type metadata headers code_blocks = ''tutorial'') \<and>
          (\<not> ex \<and> code_blocks \<noteq> [] \<longrightarrow>
             determine_content_type metadata headers code_blocks = ''code_example'') \<and>
          (\<not> ex \<and> code_blocks = [] \<and> intro \<longrightarrow>
             determine_content_type metadata headers code_blocks = ''introduction'') \<and>
          (\<not> ex \<and> code_blocks = [] \<and> \<not> intro \<longrightarrow>
             determine_content_type metadata headers code_blocks = ''documentation''))"
      unfolding determine_content_type_def Let_def list_ex_iff n
      by (simp del: contains.simps)
  qed
  from a b c d show ?thesis by blast
qed

theorem content_type_priority_witness:
  "map_of [(''type'', ''quiz'')] ''type'' = Some ''quiz'' \<and>
   determine_content_type [(''type'', ''quiz'')]
     [\<lparr>hdr_level = 1, hdr_text = ''Exercise'', hdr_line = 1\<rparr>] [] = ''quiz'' \<and>
   map_of ([] :: (string \<times> string) list) ''type'' = None \<and>
   determine_content_type []
     [\<lparr>hdr_level = 1, hdr_text = ''CHALLENGE 1'', hdr_line = 1\<rparr>] [] = ''tutorial''"
proof -
  note t1 = content_type_priority[where metadata = "[(''type'', ''quiz'')]"
      and headers = "[\<lparr>hdr_level = 1, hdr_text = ''Exercise'', hdr_line = 1\<rparr>]"
      and code_blocks = "[]" and content = "[]" and file_path = "[]"]
  note t2 = content_type_priority[where metadata = "[]"
      and headers = "[\<lparr>hdr_level = 1, hdr_text = ''CHALLENGE 1'', hdr_line = 1\<rparr>]"
      and code_blocks = "[]" and content = "[]" and file_path = "[]", unfolded Let_def]
  have q: "map_of [(''type'', ''quiz'')] ''type'' = Some ''quiz''" by simp
  have n: "map_of ([] :: (string \<times> string) list) ''type'' = None" by simp
  have e: "\<exists>h \<in> set [\<lparr>hdr_level = 1, hdr_text = ''CHALLENGE 1'', hdr_line = 1\<rparr>].
             contains ''exercise'' (lower (hdr_text h)) \<or> contains ''challenge'' (lower (hdr_text h))"
    by code_simp
  have s: "\<not> (\<exists>h \<in> set [\<lparr>hdr_level = 1, hdr_text = ''CHALLENGE 1'', hdr_line = 1\<rparr>].
             contains ''solution'' (lower (hdr_text h)) \<or> contains ''answer'' (lower (hdr_text h)))"
    by code_simp
  from t1 q have a: "determine_content_type [(''type'', ''quiz'')]
     [\<lparr>hdr_level = 1, hdr_text = ''Exercise'', hdr_line = 1\<rparr>] [] = ''quiz''"
    by blast
  from t2 n e s have b: "determine_content_type []
     [\<lparr>hdr_level = 1, hdr_text = ''CHALLENGE 1'', hdr_line = 1\<rparr>] [] = ''tutorial''"
    by blast
  from q n a b show ?thesis by blast
qed

section \<open>Properties of the response normalizer\<close>

lemma strip_id: "s \<noteq> [] \<Longrightarrow> \<not> is_space (hd s) \<Longrightarrow> \<not> is_space (last s) \<Longrightarrow> strip s = s"
proof -
  assume ne: "s \<noteq> []" and h: "\<not> is_space (hd s)" and l: "\<not> is_space (last s)"
  have 1: "dropWhile is_space s = s" using ne h by (cases s) auto
  have 2: "dropWhile is_space (rev s) = rev s"
    using ne l by (cases "rev s") (auto simp: hd_rev)
  show ?thesis by (simp only: strip_def 1 2 rev_rev_ident)
qed

lemma split_nl_no_nl: "CHR 0x0A \<notin> set a \<Longrightarrow> split_nl a = [a]"
  by (induction a) auto

lemma split_nl_append_nl:
  "CHR 0x0A \<notin> set a \<Longrightarrow> split_nl (a @ CHR 0x0A # b) = a # split_nl b"
  by (induction a) auto

lemma starts_with_append_same: "starts_with (p @ q) (p @ s) = starts_with q s"
  by (simp add: starts_with_def)

lemma payload_line:
  "CHR 0x0A \<notin> set resp_payload"
  "\<not> starts_with ''```json'' (strip resp_payload)"
  "\<not> starts_with ''```{'' (strip resp_payload)"
  "strip resp_payload \<noteq> ''```''"
  by code_simp+

lemma fence_line:
  "CHR 0x0A \<notin> set ''```''"
  "\<not> starts_with ''```json'' ''```''"
  "\<not> starts_with ''```{'' ''```''"
  "strip ''```'' = ''```''"
  by code_simp+

lemma collect_fenced:
  assumes "\<forall>c \<in> set label. \<not> is_space c"
  shows "collect_json_lines False [] (split_nl (strip (fenced_response label)))
           = (if starts_with ''json'' label \<or> starts_with ''{'' label then [resp_payload] else [])"
proof -
  define l1 where "l1 = ''```'' @ label"
  have sp: "is_space (CHR 0x0A)" by (simp add: is_space_def)
  have bt: "\<not> is_space (CHR 0x60)" by (simp add: is_space_def)
  have nl: "CHR 0x0A \<notin> set l1" using assms sp by (auto simp: l1_def)
  have l1ne: "l1 \<noteq> []" by (simp add: l1_def)
  have l1h: "\<not> is_space (hd l1)" using bt by (simp add: l1_def)
  have l1l: "\<not> is_space (last l1)"
    using assms bt by (cases "label = []") (auto simp: l1_def)
  have s1: "strip l1 = l1" by (rule strip_id[OF l1ne l1h l1l])
  have r: "fenced_response label = l1 @ CHR 0x0A # resp_payload @ CHR 0x0A # ''```''"
    by (simp add: fenced_response_def l1_def)
  have rne: "fenced_response label \<noteq> []" by (simp add: fenced_response_def)
  have rh: "\<not> is_space (hd (fenced_response label))"
    using bt by (simp add: fenced_response_def)
  have rl: "\<not> is_space (last (fenced_response label))"
    using bt by (simp add: fenced_response_def)
  have sr: "strip (fenced_response label) = fenced_response label"
    by (rule strip_id[OF rne rh rl])
  have lines: "split_nl (fenced_response label) = [l1, resp_payload, ''```'']"
    unfolding r
    by (simp only: split_nl_append_nl[OF nl] split_nl_append_nl[OF payload_line(1)]
        split_nl_no_nl[OF fence_line(1)])
  have o1: "starts_with ''```json'' l1 = starts_with ''json'' label"
    using starts_with_append_same[of "''```''" "''json''" label] by (simp add: l1_def)
  have o2: "starts_with ''```{'' l1 = starts_with ''{'' label"
    using starts_with_append_same[of "''```''" "''{''" label] by (simp add: l1_def)
  show ?thesis
  proof (cases "starts_with ''json'' label \<or> starts_with ''{'' label")
    case True
    then show ?thesis
      unfolding sr lines
      by (simp only: collect_json_lines.simps s1 o1 o2 payload_line fence_line
          simp_thms if_True if_False append_Nil)
  next
    case False
    then show ?thesis
      unfolding sr lines
      by (simp only: collect_json_lines.simps s1 o1 o2 payload_line fence_line
          simp_thms if_True if_False append_Nil)
  qed
qed

lemma resp_plain_lines:
  "collect_json_lines False [] (split_nl (strip resp_plain)) = []"
  by code_simp

lemma resp_structured_lines:
  "collect_json_lines False [] (split_nl (strip resp_structured)) = []"
  by code_simp

lemma resp_json_lines:
  "collect_json_lines False [] (split_nl (strip resp_json)) = [resp_payload]"
  by code_simp

lemma json_loads_resp:
  "json_loads resp_payload = Inr (JObject [(codes ''suggestions'', JArray [])])"
  "json_loads resp_json = Inl (JSONDecodeError ''Expecting value'')"
  "json_loads resp_plain = Inl (JSONDecodeError ''Expecting value'')"
  "json_loads resp_structured = Inl (JSONDecodeError ''Expecting value'')"
  by code_simp+

lemma fenced_response_labels:
  "fenced_response ''json'' = resp_json" "fenced_response ''structured'' = resp_structured"
  by code_simp+

text \<open>
  The response of claim C3 as it is written there, with the fence labelled
  \<open>structured\<close>: no line opens the block, nothing is collected, and the result is \<open>None\<close>.
\<close>

theorem parse_json_response_structured_counterexample:
  "parse_json_response json_loads JNull resp_structured = Inr JNull"
  by (simp add: parse_json_response_def json_loads_resp resp_structured_lines)

text \<open>
  Claim C3, as amended. Take the response made of a fence line with a label, the payload
  line and the closing fence line, the label having no whitespace, and a decoder that
  rejects the response as a whole. When the label starts with \<open>json\<close> or with an opening
  brace, \<open>_parse_json_response\<close> returns what the decoder gives for the payload line;
  for the label \<open>json\<close> and the decoder of the JSON grammar this is the object whose
  suggestion list is empty. With any other label, \<open>structured\<close> among them, the fence is
  not recognised and the result is \<open>None\<close>. For the response \<open>not json at all\<close> the result
  is \<open>None\<close> and nothing is raised.
\<close>

theorem parse_json_response_labels:
  "((\<forall>c \<in> set label. \<not> is_space c) \<longrightarrow>
      (\<forall>m. loads (fenced_response label) = Inl (JSONDecodeError m) \<longrightarrow>
         ((starts_with ''json'' label \<or> starts_with ''{'' label) \<longrightarrow>
            (\<forall>v. loads resp_payload = Inr v \<longrightarrow>
               parse_json_response loads none (fenced_response label) = Inr v)) \<and>
         (\<not> (starts_with ''json'' label \<or> starts_with ''{'' label) \<longrightarrow>
            parse_json_response loads none (fenced_response label) = Inr none))) \<and>
   (\<forall>m. loads resp_plain = Inl (JSONDecodeError m)
      \<longrightarrow> parse_json_response loads none resp_plain = Inr none) \<and>
   fenced_response ''json'' = resp_json \<and>
   fenced_response ''structured'' = resp_structured \<and>
   json_loads resp_payload = Inr (JObject [(codes ''suggestions'', JArray [])]) \<and>
   map_of [(codes ''suggestions'', JArray [])] (codes ''suggestions'') = Some (JArray []) \<and>
   parse_json_response json_loads JNull resp_json
     = Inr (JObject [(codes ''suggestions'', JArray [])]) \<and>
   parse_json_response json_loads JNull resp_plain = Inr JNull"
proof -
  have a: "parse_json_response loads none (fenced_response label) = Inr v"
    if "\<forall>c \<in> set label. \<not> is_space c"
      "loads (fenced_response label) = Inl (JSONDecodeError m)"
      "starts_with ''json'' label \<or> starts_with ''{'' label" "loads resp_payload = Inr v"
    for m v
    using that(2-4) by (simp add: parse_json_response_def collect_fenced[OF that(1)])
  have b: "parse_json_response loads none (fenced_response label) = Inr none"
    if "\<forall>c \<in> set label. \<not> is_space c"
      "loads (fenced_response label) = Inl (JSONDecodeError m)"
      "\<not> (starts_with ''json'' label \<or> starts_with ''{'' label)"
    for m
    using that(2-3) by (simp add: parse_json_response_def collect_fenced[OF that(1)])
  have c: "parse_json_response loads none resp_plain = Inr none"
    if "loads resp_plain = Inl (JSONDecodeError m)" for m
    using that by (simp add: parse_json_response_def resp_plain_lines)
  have d: "parse_json_response json_loads JNull resp_json
     = Inr (JObject [(codes ''suggestions'', JArray [])])"
    by (simp add: parse_json_response_def json_loads_resp resp_json_lines)
  have e: "parse_json_response json_loads JNull resp_plain = Inr JNull"
    by (simp add: parse_json_response_def json_loads_resp resp_plain_lines)
  have f: "map_of [(codes ''suggestions'', JArray [])] (codes ''suggestions'') = Some (JArray [])"
    by simp
  from a b c d e f json_loads_resp(1) fenced_response_labels show ?thesis by blast
qed

theorem parse_json_response_labels_witness:
  "json_loads (fenced_response ''jsonl'') = Inl (JSONDecodeError ''Expecting value'') \<and>
   starts_with ''json'' ''jsonl'' \<and>
   parse_json_response json_loads JNull (fenced_response ''jsonl'')
     = Inr (JObject [(codes ''suggestions'', JArray [])]) \<and>
   json_loads (fenced_response ''text'') = Inl (JSONDecodeError ''Expecting value'') \<and>
   parse_json_response json_loads JNull (fenced_response ''text'') = Inr JNull \<and>
   json_loads resp_plain = Inl (JSONDecodeError ''Expecting value'') \<and>
   parse_json_response json_loads JNull resp_plain = Inr JNull"
proof -
  have w1: "\<forall>c \<in> set ''jsonl''. \<not> is_space c" by (simp add: is_space_def)
  have w2: "\<forall>c \<in> set ''text''. \<not> is_space c" by (simp add: is_space_def)
  have l1: "json_loads (fenced_response ''jsonl'') = Inl (JSONDecodeError ''Expecting value'')"
    by code_simp
  have l2: "json_loads (fenced_response ''text'') = Inl (JSONDecodeError ''Expecting value'')"
    by code_simp
  have s1: "starts_with ''json'' ''jsonl'' \<or> starts_with ''{'' ''jsonl''" by code_simp
  have s1': "starts_with ''json'' ''jsonl''" by code_simp
  have s2: "\<not> (starts_with ''json'' ''text'' \<or> starts_with ''{'' ''text'')" by code_simp
  note t1 = parse_json_response_labels[where loads = json_loads and none = JNull
      and label = "''jsonl''", THEN conjunct1]
  note t2 = parse_json_response_labels[where loads = json_loads and none = JNull
      and label = "''text''", THEN conjunct1]
  note t3 = parse_json_response_labels[where loads = json_loads and none = JNull
      and label = "''text''", THEN conjunct2, THEN conjunct1]
  from t1 w1 l1 s1 json_loads_resp(1)
  have a: "parse_json_response json_loads JNull (fenced_response ''jsonl'')
     = Inr (JObject [(codes ''suggestions'', JArray [])])" by blast
  from t2 w2 l2 s2
  have b: "parse_json_response json_loads JNull (fenced_response ''text'') = Inr JNull"
    by blast
  from t3 json_loads_resp(3)
  have c: "parse_json_response json_loads JNull resp_plain = Inr JNull" by blast
  from l1 s1' a l2 b json_loads_resp(3) c show ?thesis by blast
qed

section \<open>Properties of the orchestrator\<close>

lemma dict_set_fresh: "k \<notin> fst ` set d \<Longrightarrow> dict_set k v d = d @ [(k, v)]"
  by (induction d) auto

lemma process_all_from_eq:
  "distinct (map fst cm) \<Longrightarrow> fst ` set acc \<inter> fst ` set cm = {} \<Longrightarrow>
   process_all_from process acc cm
     = acc @ map (\<lambda>(p, c). (p, entry_of process p c)) cm"
proof (induction cm arbitrary: acc)
  case Nil
  then show ?case by simp
next
  case (Cons x cm)
  obtain p c where x: "x = (p, c)" by (cases x) auto
  have f: "p \<notin> fst ` set acc" using Cons.prems(2) x by auto
  have d: "distinct (map fst cm)" using Cons.prems(1) by simp
  have i: "fst ` set (acc @ [(p, entry_of process p c)]) \<inter> fst ` set cm = {}"
    using Cons.prems x by auto
  show ?case
    using Cons.IH[OF d i] dict_set_fresh[OF f]
    by (simp add: x entry_of_def)
qed

lemma process_all_content_eq:
  "distinct (map fst cm) \<Longrightarrow>
   process_all_content process cm = map (\<lambda>(p, c). (p, entry_of process p c)) cm"
  using process_all_from_eq[of cm "[]" process] by (simp add: process_all_content_def)

lemma analyze_from_eq:
  "distinct (map fst pcs) \<Longrightarrow> fst ` set res \<inter> fst ` set pcs = {} \<Longrightarrow>
   analyze_from ac (res, calls) pcs
     = (res @ map (\<lambda>(p, cd). (p, outcome_of ac p cd)) pcs,
        calls @ concat (map (\<lambda>(p, cd). calls_of p cd) pcs))"
proof (induction pcs arbitrary: res calls)
  case Nil
  then show ?case by simp
next
  case (Cons x pcs)
  obtain p cd where x: "x = (p, cd)" by (cases x) auto
  have f: "p \<notin> fst ` set res" using Cons.prems(2) x by auto
  have d: "distinct (map fst pcs)" using Cons.prems(1) by simp
  have i: "fst ` set (res @ [(p, v)]) \<inter> fst ` set pcs = {}" for v
    using Cons.prems x by auto
  note ih = Cons.IH[OF d i]
  show ?case
  proof (cases cd)
    case (ProcError err raw)
    then show ?thesis
      using ih[of None calls] dict_set_fresh[OF f, of None]
      by (simp add: x outcome_of_def calls_of_def)
  next
    case (Processed pd)
    show ?thesis
    proof (cases "length (strip (pc_processed_content pd)) < 100")
      case True
      then show ?thesis
        using ih[of None calls] dict_set_fresh[OF f, of None] Processed
        by (simp add: x outcome_of_def calls_of_def)
    next
      case False
      show ?thesis
      proof (cases "ac (pc_processed_content pd) p (title_of pd p)")
        case (Inl e)
        then show ?thesis
          using ih[of None "calls @ [(pc_processed_content pd, p, title_of pd p)]"]
            dict_set_fresh[OF f, of None] Processed False
          by (simp add: x outcome_of_def calls_of_def title_of_def Let_def)
      next
        case (Inr r)
        then show ?thesis
          using ih[of r "calls @ [(pc_processed_content pd, p, title_of pd p)]"]
            dict_set_fresh[OF f, of r] Processed False
          by (simp add: x outcome_of_def calls_of_def title_of_def Let_def)
      qed
    qed
  qed
qed

lemma analyze_with_ai_eq:
  "distinct (map fst pcs) \<Longrightarrow>
   analyze_with_ai ac pcs
     = (map (\<lambda>(p, cd). (p, outcome_of ac p cd)) pcs,
        concat (map (\<lambda>(p, cd). calls_of p cd) pcs))"
  using analyze_from_eq[of pcs "[]" ac "[]"] by (simp add: analyze_with_ai_def)

lemma map_of_keyed:
  "distinct (map fst xs) \<Longrightarrow> (k, v) \<in> set xs \<Longrightarrow>
   map_of (map (\<lambda>(p, c). (p, f p c)) xs) k = Some (f k v)"
  by (induction xs) (auto simp: rev_image_eqI)

lemma calls_of_path: "c \<in> set (calls_of p cd) \<Longrightarrow> fst (snd c) = p"
  by (auto simp: calls_of_def split: content_data.splits if_splits)

lemma keyed_unique:
  "distinct (map fst xs) \<Longrightarrow> (k, v) \<in> set xs \<Longrightarrow> (k, v') \<in> set xs \<Longrightarrow> v = v'"
  by (induction xs) (auto simp: rev_image_eqI)

text \<open>
  A file with a payload of 50 characters and a file with a payload of 120 characters whose
  backend call raises leave the same result set: the entry of the file is \<open>None\<close> in both.
\<close>

theorem skip_same_as_failure_counterexample:
  "fst (analyze_with_ai backend_raises [(''a.md'', Processed (processed_of short_payload))])
     = [(''a.md'', None)] \<and>
   fst (analyze_with_ai backend_raises [(''a.md'', Processed (processed_of long_payload))])
     = [(''a.md'', None)]"
  by code_simp

text \<open>
  Claim C4, as amended. For every file whose payload, once stripped, is shorter than 100
  characters, \<open>_analyze_with_ai\<close> makes no backend call and records \<open>None\<close> for the file.
  A file whose backend call returns \<open>None\<close> or raises is recorded as \<open>None\<close> as well, after
  the call: the result set holds the same value for a skipped file and for a backend
  failure.
\<close>

theorem short_payload_skipped:
  "distinct (map fst pcs) \<longrightarrow>
   (\<forall>(p, cd) \<in> set pcs. \<forall>d.
      cd = Processed d \<and> length (strip (pc_processed_content d)) < 100 \<longrightarrow>
        map_of (fst (analyze_with_ai ac pcs)) p = Some None \<and>
        (\<forall>c \<in> set (snd (analyze_with_ai ac pcs)). fst (snd c) \<noteq> p)) \<and>
   (\<forall>(p, cd) \<in> set pcs. \<forall>d.
      cd = Processed d \<and> 100 \<le> length (strip (pc_processed_content d)) \<and>
      (ac (pc_processed_content d) p (title_of d p) = Inr None \<or>
       (\<exists>e. ac (pc_processed_content d) p (title_of d p) = Inl e)) \<longrightarrow>
        map_of (fst (analyze_with_ai ac pcs)) p = Some None \<and>
        (pc_processed_content d, p, title_of d p) \<in> set (snd (analyze_with_ai ac pcs)))"
proof (rule impI)
  assume dist: "distinct (map fst pcs)"
  note eq = analyze_with_ai_eq[OF dist, of ac]
  have res: "map_of (fst (analyze_with_ai ac pcs)) p = Some (outcome_of ac p cd)"
    if "(p, cd) \<in> set pcs" for p cd
    unfolding eq using map_of_keyed[OF dist that, of "outcome_of ac"] by simp
  have a: "map_of (fst (analyze_with_ai ac pcs)) p = Some None \<and>
        (\<forall>c \<in> set (snd (analyze_with_ai ac pcs)). fst (snd c) \<noteq> p)"
    if m: "(p, cd) \<in> set pcs" and cd: "cd = Processed d"
      and s: "length (strip (pc_processed_content d)) < 100" for p cd d
  proof
    show "map_of (fst (analyze_with_ai ac pcs)) p = Some None"
      using res[OF m] cd s by (simp add: outcome_of_def)
    show "\<forall>c \<in> set (snd (analyze_with_ai ac pcs)). fst (snd c) \<noteq> p"
    proof
      fix c assume "c \<in> set (snd (analyze_with_ai ac pcs))"
      then obtain p' cd' where m': "(p', cd') \<in> set pcs" and c: "c \<in> set (calls_of p' cd')"
        unfolding eq by auto
      show "fst (snd c) \<noteq> p"
      proof
        assume "fst (snd c) = p"
        with calls_of_path[OF c] have "p' = p" by simp
        with m' m dist have "cd' = cd" using keyed_unique by fastforce
        with c cd s show False by (simp add: calls_of_def)
      qed
    qed
  qed
  have b: "map_of (fst (analyze_with_ai ac pcs)) p = Some None \<and>
        (pc_processed_content d, p, title_of d p) \<in> set (snd (analyze_with_ai ac pcs))"
    if m: "(p, cd) \<in> set pcs" and cd: "cd = Processed d"
      and s: "100 \<le> length (strip (pc_processed_content d))"
      and f: "ac (pc_processed_content d) p (title_of d p) = Inr None \<or>
       (\<exists>e. ac (pc_processed_content d) p (title_of d p) = Inl e)" for p cd d
  proof
    show "map_of (fst (analyze_with_ai ac pcs)) p = Some None"
      using res[OF m] cd s f by (auto simp: outcome_of_def)
    have "(pc_processed_content d, p, title_of d p) \<in> set (calls_of p cd)"
      using cd s by (simp add: calls_of_def)
    with m show "(pc_processed_content d, p, title_of d p) \<in> set (snd (analyze_with_ai ac pcs))"
      unfolding eq by force
  qed
  from a b show "(\<forall>(p, cd) \<in> set pcs. \<forall>d.
      cd = Processed d \<and> length (strip (pc_processed_content d)) < 100 \<longrightarrow>
        map_of (fst (analyze_with_ai ac pcs)) p = Some None \<and>
        (\<forall>c \<in> set (snd (analyze_with_ai ac pcs)). fst (snd c) \<noteq> p)) \<and>
   (\<forall>(p, cd) \<in> set pcs. \<forall>d.
      cd = Processed d \<and> 100 \<le> length (strip (pc_processed_content d)) \<and>
      (ac (pc_processed_content d) p (title_of d p) = Inr None \<or>
       (\<exists>e. ac (pc_processed_content d) p (title_of d p) = Inl e)) \<longrightarrow>
        map_of (fst (analyze_with_ai ac pcs)) p = Some None \<and>
        (pc_processed_content d, p, title_of d p) \<in> set (snd (analyze_with_ai ac pcs)))"
    by blast
qed

theorem short_payload_skipped_witness:
  "distinct (map fst two_entries) \<and>
   length (strip (pc_processed_content (processed_of short_payload))) < 100 \<and>
   map_of (fst (analyze_with_ai backend_raises two_entries)) ''a.md'' = Some None \<and>
   filter (\<lambda>c. fst (snd c) = ''a.md'') (snd (analyze_with_ai backend_raises two_entries)) = [] \<and>
   100 \<le> length (strip (pc_processed_content (processed_of long_payload))) \<and>
   map_of (fst (analyze_with_ai backend_raises two_entries)) ''b.md'' = Some None \<and>
   (long_payload, ''b.md'', ''b.md'') \<in> set (snd (analyze_with_ai backend_raises two_entries))"
proof -
  have d: "distinct (map fst two_entries)" by (simp add: two_entries_def)
  have s: "length (strip (pc_processed_content (processed_of short_payload))) < 100"
    by code_simp
  have l: "100 \<le> length (strip (pc_processed_content (processed_of long_payload)))"
    by code_simp
  have ma: "(''a.md'', Processed (processed_of short_payload)) \<in> set two_entries"
    by (simp add: two_entries_def)
  have mb: "(''b.md'', Processed (processed_of long_payload)) \<in> set two_entries"
    by (simp add: two_entries_def)
  have f: "backend_raises (pc_processed_content (processed_of long_payload)) ''b.md''
             (title_of (processed_of long_payload) ''b.md'') = Inr None \<or>
           (\<exists>e. backend_raises (pc_processed_content (processed_of long_payload)) ''b.md''
             (title_of (processed_of long_payload) ''b.md'') = Inl e)"
    by (simp add: backend_raises_def)
  note t = short_payload_skipped[of two_entries backend_raises, rule_format, OF d]
  from t[THEN conjunct1, rule_format, OF ma] s
  have a: "map_of (fst (analyze_with_ai backend_raises two_entries)) ''a.md'' = Some None \<and>
   filter (\<lambda>c. fst (snd c) = ''a.md'') (snd (analyze_with_ai backend_raises two_entries)) = []"
    by (simp add: filter_empty_conv)
  from t[THEN conjunct2, rule_format, OF mb] l f
  have b: "map_of (fst (analyze_with_ai backend_raises two_entries)) ''b.md'' = Some None \<and>
   (long_payload, ''b.md'', ''b.md'') \<in> set (snd (analyze_with_ai backend_raises two_entries))"
    by (simp add: processed_of_def title_of_def)
  from d s l a b show ?thesis by blast
qed

lemma three_files_eval:
  "fst (process_and_analyze process_raising_on_b backend_answers three_files)
     = [(''a.md'', Some (JObject [(''suggestions'', JArray [])])),
        (''b.ipynb'', None),
        (''c.md'', Some (JObject [(''suggestions'', JArray [])]))]"
  by code_simp

text \<open>
  Claim C5. For every batch of files, processing and analysis give an entry for every
  file, in the order of the batch. The entry of a file is the one the file gets when it
  is the only file of the batch, so it does not depend on what happens to the others; it
  is \<open>None\<close> when the processing of the file raises and when its analysis raises, and
  the answer of the backend when both succeed on a payload of 100 characters or more. For
  three files of which the second raises during processing, the result set holds the
  answers for the first and the third and \<open>None\<close> for the second.
\<close>

theorem file_failure_isolated:
  "(distinct (map fst cm) \<longrightarrow>
     map fst (fst (process_and_analyze process ac cm)) = map fst cm \<and>
     (\<forall>(p, c) \<in> set cm.
        map_of (fst (process_and_analyze process ac cm)) p
          = map_of (fst (process_and_analyze process ac [(p, c)])) p \<and>
        ((\<exists>e. process p c = Inl e) \<longrightarrow>
           map_of (fst (process_and_analyze process ac cm)) p = Some None) \<and>
        (\<forall>d e. process p c = Inr d \<and>
             ac (pc_processed_content d) p (title_of d p) = Inl e \<longrightarrow>
           map_of (fst (process_and_analyze process ac cm)) p = Some None) \<and>
        (\<forall>d r. process p c = Inr d \<and> 100 \<le> length (strip (pc_processed_content d)) \<and>
             ac (pc_processed_content d) p (title_of d p) = Inr r \<longrightarrow>
           map_of (fst (process_and_analyze process ac cm)) p = Some r))) \<and>
   fst (process_and_analyze process_raising_on_b backend_answers three_files)
     = [(''a.md'', Some (JObject [(''suggestions'', JArray [])])),
        (''b.ipynb'', None),
        (''c.md'', Some (JObject [(''suggestions'', JArray [])]))]"
proof -
  have gen: "map fst (fst (process_and_analyze process ac cm)) = map fst cm \<and>
     (\<forall>(p, c) \<in> set cm.
        map_of (fst (process_and_analyze process ac cm)) p
          = map_of (fst (process_and_analyze process ac [(p, c)])) p \<and>
        ((\<exists>e. process p c = Inl e) \<longrightarrow>
           map_of (fst (process_and_analyze process ac cm)) p = Some None) \<and>
        (\<forall>d e. process p c = Inr d \<and>
             ac (pc_processed_content d) p (title_of d p) = Inl e \<longrightarrow>
           map_of (fst (process_and_analyze process ac cm)) p = Some None) \<and>
        (\<forall>d r. process p c = Inr d \<and> 100 \<le> length (strip (pc_processed_content d)) \<and>
             ac (pc_processed_content d) p (title_of d p) = Inr r \<longrightarrow>
           map_of (fst (process_and_analyze process ac cm)) p = Some r))"
    if dist: "distinct (map fst cm)"
  proof -
    define pcs where "pcs = map (\<lambda>(p, c). (p, entry_of process p c)) cm"
    have keys: "map fst pcs = map fst cm" by (auto simp: pcs_def)
    have dp: "distinct (map fst pcs)" using dist keys by simp
    have run: "process_and_analyze process ac cm
        = (map (\<lambda>(p, cd). (p, outcome_of ac p cd)) pcs,
           concat (map (\<lambda>(p, cd). calls_of p cd) pcs))"
      unfolding process_and_analyze_def process_all_content_eq[OF dist] pcs_def[symmetric]
      by (rule analyze_with_ai_eq[OF dp])
    have k: "map fst (fst (process_and_analyze process ac cm)) = map fst cm"
      unfolding run using keys by (auto simp: pcs_def)
    have res: "map_of (fst (process_and_analyze process ac cm)) p
        = Some (outcome_of ac p (entry_of process p c))"
      if m: "(p, c) \<in> set cm" for p c
    proof -
      have "(p, entry_of process p c) \<in> set pcs" using m by (auto simp: pcs_def)
      from map_of_keyed[OF dp this, of "outcome_of ac"] show ?thesis
        unfolding run by simp
    qed
    have one: "map_of (fst (process_and_analyze process ac [(p, c)])) p
        = Some (outcome_of ac p (entry_of process p c))" for p c
      by (simp add: process_and_analyze_def process_all_content_def analyze_with_ai_eq entry_of_def)
    have per: "map_of (fst (process_and_analyze process ac cm)) p
          = map_of (fst (process_and_analyze process ac [(p, c)])) p \<and>
        ((\<exists>e. process p c = Inl e) \<longrightarrow>
           map_of (fst (process_and_analyze process ac cm)) p = Some None) \<and>
        (\<forall>d e. process p c = Inr d \<and>
             ac (pc_processed_content d) p (title_of d p) = Inl e \<longrightarrow>
           map_of (fst (process_and_analyze process ac cm)) p = Some None) \<and>
        (\<forall>d r. process p c = Inr d \<and> 100 \<le> length (strip (pc_processed_content d)) \<and>
             ac (pc_processed_content d) p (title_of d p) = Inr r \<longrightarrow>
           map_of (fst (process_and_analyze process ac cm)) p = Some r)"
      if m: "(p, c) \<in> set cm" for p c
      unfolding res[OF m] one
      by (auto simp: outcome_of_def entry_of_def)
    from k per show ?thesis by blast
  qed
  from gen three_files_eval show ?thesis by blast
qed

theorem file_failure_isolated_witness:
  "distinct (map fst three_files) \<and>
   (\<exists>e. process_raising_on_b ''b.ipynb'' long_payload = Inl e) \<and>
   map fst (fst (process_and_analyze process_raising_on_b backend_answers three_files))
     = [''a.md'', ''b.ipynb'', ''c.md''] \<and>
   map_of (fst (process_and_analyze process_raising_on_b backend_answers three_files)) ''b.ipynb''
     = Some None \<and>
   map_of (fst (process_and_analyze process_raising_on_b backend_answers three_files)) ''c.md''
     = Some (Some (JObject [(''suggestions'', JArray [])]))"
proof -
  have d: "distinct (map fst three_files)" by (simp add: three_files_def)
  have mb: "(''b.ipynb'', long_payload) \<in> set three_files" by (simp add: three_files_def)
  have mc: "(''c.md'', long_payload) \<in> set three_files" by (simp add: three_files_def)
  have e: "\<exists>e. process_raising_on_b ''b.ipynb'' long_payload = Inl e"
    by (simp add: process_raising_on_b_def)
  have pc: "process_raising_on_b ''c.md'' long_payload = Inr (processed_of long_payload)"
    by (simp add: process_raising_on_b_def)
  have l: "100 \<le> length (strip (pc_processed_content (processed_of long_payload)))"
    by code_simp
  have r: "backend_answers (pc_processed_content (processed_of long_payload)) ''c.md''
      (title_of (processed_of long_payload) ''c.md'')
        = Inr (Some (JObject [(''suggestions'', JArray [])]))"
    by (simp add: backend_answers_def)
  note t = file_failure_isolated[of three_files process_raising_on_b backend_answers,
      THEN conjunct1, rule_format, OF d]
  from t have k: "map fst (fst (process_and_analyze process_raising_on_b backend_answers three_files))
     = [''a.md'', ''b.ipynb'', ''c.md'']"
    by (simp add: three_files_def)
  from t[THEN conjunct2, rule_format, OF mb] e
  have b: "map_of (fst (process_and_analyze process_raising_on_b backend_answers three_files)) ''b.ipynb''
     = Some None" by blast
  from t[THEN conjunct2, rule_format, OF mc] pc l r
  have c: "map_of (fst (process_and_analyze process_raising_on_b backend_answers three_files)) ''c.md''
     = Some (Some (JObject [(''suggestions'', JArray [])]))" by blast
  from d e k b c show ?thesis by blast
qed

section \<open>Properties of the notebook parser\<close>

lemma nb_examples:
  "json_loads nb_not_json = Inl (JSONDecodeError ''Expecting value'')"
  "json_loads nb_no_cells = Inr (JObject [(codes ''a'', JNumber ''1'')])"
  "node_truthy (JObject [(codes ''a'', JNumber ''1'')])"
  "nb_extract_metadata (JObject [(codes ''a'', JNumber ''1'')]) = Inr []"
  "node_attr (JObject [(codes ''a'', JNumber ''1'')]) ''cells'' = Inl (AttributeError ''cells'')"
  by code_simp+

lemma nb_analysis_no_cells:
  "nb_analysis of_cells (JObject [(codes ''a'', JNumber ''1'')]) file_path
     = Inl (AttributeError ''cells'')"
  by (simp only: nb_analysis_def nb_examples sum.case)

text \<open>
  Claim C6. An input that is no JSON gives the failure marker, the dictionary with the
  single key \<open>error\<close>, and no exception. An input that is JSON but no notebook does not:
  whenever the decoded value is converted to a node that is not empty and the analysis
  of the node raises, \<open>load_notebook\<close> returns the node and the exception leaves
  \<open>analyze_notebook_structure\<close>. The conversion checks nothing, so this is what happens
  for the content \<open>{"a": 1}\<close>: the node has no member \<open>cells\<close>, and the first read of
  \<open>notebook.cells\<close> raises the attribute error for \<open>cells\<close>, whatever the parser would go
  on to compute from the cells.
\<close>

theorem notebook_without_cells_raises:
  "((\<exists>m. loads content = Inl (JSONDecodeError m)) \<longrightarrow>
      load_notebook loads from_dict content = Inr None \<and>
      analyze_notebook_structure loads from_dict truthy analysis_of content file_path
        = Inr (NbError ''Failed to load notebook'')) \<and>
   (\<forall>d nb e. loads content = Inr d \<and> from_dict d = Inr nb \<and> truthy nb \<and>
        analysis_of nb file_path = Inl e \<longrightarrow>
      load_notebook loads from_dict content = Inr (Some nb) \<and>
      analyze_notebook_structure loads from_dict truthy analysis_of content file_path = Inl e) \<and>
   json_loads nb_no_cells = Inr (JObject [(codes ''a'', JNumber ''1'')]) \<and>
   load_notebook json_loads nb_from_dict nb_no_cells
     = Inr (Some (JObject [(codes ''a'', JNumber ''1'')])) \<and>
   analyze_notebook_structure json_loads nb_from_dict node_truthy (nb_analysis of_cells)
       nb_no_cells file_path
     = Inl (AttributeError ''cells'')"
proof -
  have a: "load_notebook loads from_dict content = Inr None \<and>
      analyze_notebook_structure loads from_dict truthy analysis_of content file_path
        = Inr (NbError ''Failed to load notebook'')"
    if "\<exists>m. loads content = Inl (JSONDecodeError m)"
    using that by (auto simp: load_notebook_def analyze_notebook_structure_def)
  have b: "load_notebook loads from_dict content = Inr (Some nb) \<and>
      analyze_notebook_structure loads from_dict truthy analysis_of content file_path = Inl e"
    if "loads content = Inr d" "from_dict d = Inr nb" "truthy nb"
       "analysis_of nb file_path = Inl e" for d nb e
    using that by (simp add: load_notebook_def analyze_notebook_structure_def)
  have c: "load_notebook json_loads nb_from_dict nb_no_cells
     = Inr (Some (JObject [(codes ''a'', JNumber ''1'')]))"
    by (simp add: load_notebook_def nb_examples(2) nb_from_dict_def)
  have d: "analyze_notebook_structure json_loads nb_from_dict node_truthy (nb_analysis of_cells)
       nb_no_cells file_path
     = Inl (AttributeError ''cells'')"
    unfolding analyze_notebook_structure_def c
    by (simp only: nb_examples(3) nb_analysis_no_cells sum.case option.case simp_thms if_False)
  from a b c d nb_examples(2) show ?thesis by blast
qed

theorem notebook_without_cells_raises_witness:
  "(\<exists>m. json_loads nb_not_json = Inl (JSONDecodeError m)) \<and>
   load_notebook json_loads nb_from_dict nb_not_json = Inr None \<and>
   analyze_notebook_structure json_loads nb_from_dict node_truthy
       (nb_analysis (\<lambda>metadata cells notebook file_path. Inr ())) nb_not_json ''n.ipynb''
     = Inr (NbError ''Failed to load notebook'') \<and>
   json_loads nb_no_cells = Inr (JObject [(codes ''a'', JNumber ''1'')]) \<and>
   nb_from_dict (JObject [(codes ''a'', JNumber ''1'')]) = Inr (JObject [(codes ''a'', JNumber ''1'')]) \<and>
   node_truthy (JObject [(codes ''a'', JNumber ''1'')]) \<and>
   analyze_notebook_structure json_loads nb_from_dict node_truthy
       (nb_analysis (\<lambda>metadata cells notebook file_path. Inr ())) nb_no_cells ''n.ipynb''
     = Inl (AttributeError ''cells'')"
proof -
  have h: "\<exists>m. json_loads nb_not_json = Inl (JSONDecodeError m)"
    using nb_examples(1) by blast
  have f: "nb_from_dict (JObject [(codes ''a'', JNumber ''1'')])
      = Inr (JObject [(codes ''a'', JNumber ''1'')])"
    by (simp add: nb_from_dict_def)
  have r: "nb_analysis (\<lambda>metadata cells notebook file_path. Inr ())
      (JObject [(codes ''a'', JNumber ''1'')]) ''n.ipynb'' = Inl (AttributeError ''cells'')"
    by (rule nb_analysis_no_cells)
  note t1 = notebook_without_cells_raises[of json_loads nb_not_json nb_from_dict node_truthy
      "nb_analysis (\<lambda>metadata cells notebook file_path. Inr ())" "''n.ipynb''", THEN conjunct1]
  note t2 = notebook_without_cells_raises[of json_loads nb_no_cells nb_from_dict node_truthy
      "nb_analysis (\<lambda>metadata cells notebook file_path. Inr ())" "''n.ipynb''",
      THEN conjunct2, THEN conjunct1]
  from t1 h have a: "load_notebook json_loads nb_from_dict nb_not_json = Inr None \<and>
   analyze_notebook_structure json_loads nb_from_dict node_truthy
       (nb_analysis (\<lambda>metadata cells notebook file_path. Inr ())) nb_not_json ''n.ipynb''
     = Inr (NbError ''Failed to load notebook'')" by blast
  from t2 nb_examples(2) f nb_examples(3) r
  have b: "analyze_notebook_structure json_loads nb_from_dict node_truthy
       (nb_analysis (\<lambda>metadata cells notebook file_path. Inr ())) nb_no_cells ''n.ipynb''
     = Inl (AttributeError ''cells'')" by blast
  from h a nb_examples(2) f nb_examples(3) b show ?thesis by blast
qed

end
